theory Spec2Isabelle
  imports Main "HOL-Library.Word"
begin

section \<open>Constants and data of the ring-buffer benchmark\<close>

text \<open>
  The embedding follows \<^verbatim>\<open>IPC_LINUX.c\<close> (the first translation unit of that file, the
  shared-memory benchmark). \<^verbatim>\<open>IPC.c\<close> is the Windows variant of the same program: its
  producer loop, consumer loop and auditor are statement for statement the same, with
  \<^verbatim>\<open>LONG\<close> cursors and kernel semaphore handles.
\<close>

definition RING_CAP :: nat where
  "RING_CAP = 1024"

definition PAYLOAD_SZ :: nat where
  "PAYLOAD_SZ = 64"

text \<open>The range of the C type \<^verbatim>\<open>int\<close> (32 bits, two's complement).\<close>

definition INT_MAX :: int where
  "INT_MAX = 2147483647"

definition INT_MIN :: int where
  "INT_MIN = - 2147483648"

datatype error =
    Signed_overflow      \<comment> \<open>a signed \<^verbatim>\<open>int\<close> operation leaves the range: undefined in C\<close>
  | Out_of_bounds        \<comment> \<open>an array is indexed outside its allocation\<close>

text \<open>\<^verbatim>\<open>typedef struct { uint32_t tx_id; uint32_t type; uint64_t amount_pence;
  uint64_t t_send_us; char payload[PAYLOAD_SZ]; } TxMsg;\<close>\<close>

record TxMsg =
  tx_id :: "32 word"
  type :: "32 word"
  amount_pence :: "64 word"
  t_send_us :: "64 word"
  payload :: string

text \<open>\<^verbatim>\<open>typedef struct { uint32_t head; uint32_t tail; TxMsg buf[RING_CAP]; } Ring;\<close>\<close>

record Ring =
  head :: "32 word"
  tail :: "32 word"
  buf :: "TxMsg list"

text \<open>A slot as \<^verbatim>\<open>memset(ring, 0, sizeof(Ring))\<close> leaves it.\<close>

definition zero_msg :: TxMsg where
  "zero_msg = \<lparr>tx_id = 0, type = 0, amount_pence = 0, t_send_us = 0, payload = []\<rparr>"

definition zero_ring :: Ring where
  "zero_ring = \<lparr>head = 0, tail = 0, buf = replicate RING_CAP zero_msg\<rparr>"

section \<open>Signed arithmetic of C\<close>

text \<open>Addition on \<^verbatim>\<open>int\<close>; a result outside the range is undefined behaviour.\<close>

definition int_add :: "int \<Rightarrow> int \<Rightarrow> error + int" where
  "int_add a b =
     (if INT_MIN \<le> a + b \<and> a + b \<le> INT_MAX then Inr (a + b) else Inl Signed_overflow)"

text \<open>The operator \<^verbatim>\<open>%\<close> of C truncates towards zero: the result has the sign of the
  dividend.\<close>

definition c_rem :: "int \<Rightarrow> int \<Rightarrow> int" where
  "c_rem a b = sgn a * (\<bar>a\<bar> mod \<bar>b\<bar>)"

section \<open>The producer's record\<close>

definition types :: "string list" where
  "types = [''Transfer'', ''Inquiry'', ''BillPay'', ''Fraud'', ''Logging'']"

definition digit_char :: "nat \<Rightarrow> char" where
  "digit_char d = char_of (48 + d)"

text \<open>The conversion \<^verbatim>\<open>%u\<close> of \<^verbatim>\<open>snprintf\<close>: decimal, no padding.\<close>

function show_nat :: "nat \<Rightarrow> string" where
  "show_nat k = (if k < 10 then [digit_char k] else show_nat (k div 10) @ [digit_char (k mod 10)])"
  by pat_completeness auto
termination
  by (relation "measure (\<lambda>k. k)") auto

text \<open>\<^verbatim>\<open>snprintf(msg.payload, sizeof(msg.payload), "HL_TX_%u %s", msg.tx_id, types[msg.type])\<close>:
  at most \<^verbatim>\<open>PAYLOAD_SZ - 1\<close> characters are stored.\<close>

definition format_payload :: "32 word \<Rightarrow> string \<Rightarrow> string" where
  "format_payload t nm = take (PAYLOAD_SZ - 1) (''HL_TX_'' @ show_nat (unat t) @ '' '' @ nm)"

text \<open>
  The body of the producer loop between the semaphore waits and the write to the ring
  (\<^verbatim>\<open>IPC_LINUX.c\<close> lines 208 to 213, \<^verbatim>\<open>IPC.c\<close> lines 204 to 209), for the loop index
  \<open>i\<close> and the value \<open>now\<close> that \<^verbatim>\<open>now_us()\<close> returns at line 212:
  \<^verbatim>\<open>
    msg.tx_id = (uint32_t)(i + 1);
    msg.type  = (uint32_t)(i % 5);
    msg.amount_pence = (uint64_t)(1000 + (i % 500)) * 100;
    msg.t_send_us = (uint64_t)now_us();
    snprintf(msg.payload, ...);
  \<close>
\<close>

definition make_msg :: "int \<Rightarrow> int \<Rightarrow> error + TxMsg" where
  "make_msg i now =
     (case int_add i 1 of
        Inl e \<Rightarrow> Inl e
      | Inr i1 \<Rightarrow>
          (case int_add 1000 (c_rem i 500) of
             Inl e \<Rightarrow> Inl e
           | Inr a \<Rightarrow>
               (let tid = (word_of_int i1 :: 32 word);
                    ty = (word_of_int (c_rem i 5) :: 32 word)
                in if unat ty < length types
                   then Inr \<lparr>tx_id = tid, type = ty,
                             amount_pence = (word_of_int a :: 64 word) * 100,
                             t_send_us = word_of_int now,
                             payload = format_payload tid (types ! unat ty)\<rparr>
                   else Inl Out_of_bounds)))"

section \<open>The integrity auditor\<close>

text \<open>
  \<^verbatim>\<open>uint8_t *seen = calloc((size_t)n + 1, 1);\<close> gives \<open>n + 1\<close> zero bytes (for the
  counts \<open>n > 0\<close> that \<^verbatim>\<open>main\<close> lets through; the allocation is taken to succeed). Inside the
  consumer loop (\<^verbatim>\<open>IPC_LINUX.c\<close> lines 123 to 125, \<^verbatim>\<open>IPC.c\<close> lines 97 to 99):
  \<^verbatim>\<open>
    if (msg.tx_id >= 1 && msg.tx_id <= (uint32_t)n) { seen[msg.tx_id] += 1; }
  \<close>
  The counter is a \<^verbatim>\<open>uint8_t\<close>, so the increment is modulo 256.
\<close>

definition calloc_seen :: "int \<Rightarrow> 8 word list" where
  "calloc_seen n = replicate (nat n + 1) 0"

definition observe :: "int \<Rightarrow> 8 word list \<Rightarrow> 32 word \<Rightarrow> error + 8 word list" where
  "observe n seen t =
     (if 1 \<le> t \<and> t \<le> (word_of_int n :: 32 word)
      then (if unat t < length seen
            then Inr (seen[unat t := seen ! unat t + 1])
            else Inl Out_of_bounds)
      else Inr seen)"

text \<open>The consumer loop restricted to what the auditor sees: one observation per
  dequeued record, in order.\<close>

fun observe_all :: "int \<Rightarrow> 8 word list \<Rightarrow> 32 word list \<Rightarrow> error + 8 word list" where
  "observe_all n seen [] = Inr seen"
| "observe_all n seen (t # ts) =
     (case observe n seen t of Inl e \<Rightarrow> Inl e | Inr seen' \<Rightarrow> observe_all n seen' ts)"

text \<open>
  The reporting loop (\<^verbatim>\<open>IPC_LINUX.c\<close> lines 131 to 135, \<^verbatim>\<open>IPC.c\<close> lines 105 to 109):
  \<^verbatim>\<open>
    int missing = 0, duplicates = 0;
    for (int id = 1; id <= n; id++) {
        if (seen[id] == 0) missing++;
        if (seen[id] > 1) duplicates += (seen[id] - 1);
    }
  \<close>
  All three variables are \<^verbatim>\<open>int\<close>; \<^verbatim>\<open>id++\<close> runs after every iteration, also the last.
  \<open>audit_body\<close> is the body of the loop for one id, \<open>audit_loop\<close> the loop from \<open>ident\<close>
  on.
\<close>

definition audit_body :: "8 word list \<Rightarrow> int \<Rightarrow> int \<times> int \<Rightarrow> error + (int \<times> int)" where
  "audit_body seen ident acc =
     (case acc of (missing, duplicates) \<Rightarrow>
        if ident < 0 \<or> length seen \<le> nat ident then Inl Out_of_bounds
        else
          (case (if seen ! nat ident = 0 then int_add missing 1 else Inr missing) of
             Inl e \<Rightarrow> Inl e
           | Inr missing' \<Rightarrow>
               (case (if seen ! nat ident > 1
                      then int_add duplicates (uint (seen ! nat ident) - 1)
                      else Inr duplicates) of
                  Inl e \<Rightarrow> Inl e
                | Inr duplicates' \<Rightarrow> Inr (missing', duplicates'))))"

function audit_loop :: "int \<Rightarrow> 8 word list \<Rightarrow> int \<Rightarrow> int \<times> int \<Rightarrow> error + (int \<times> int)" where
  "audit_loop n seen ident acc =
     (if ident \<le> n then
        (case audit_body seen ident acc of
           Inl e \<Rightarrow> Inl e
         | Inr acc' \<Rightarrow>
             (case int_add ident 1 of
                Inl e \<Rightarrow> Inl e
              | Inr ident' \<Rightarrow> audit_loop n seen ident' acc'))
      else Inr acc)"
  by pat_completeness auto
termination
  by (relation "measure (\<lambda>(n, seen, ident, acc). nat (n + 1 - ident))")
     (auto simp: int_add_def split: if_splits)

definition audit :: "int \<Rightarrow> 8 word list \<Rightarrow> error + (int \<times> int)" where
  "audit n seen = audit_loop n seen 1 (0, 0)"

text \<open>The auditor on a sequence of consumed ids: allocation, the observations, the
  report.\<close>

definition consumer_audit :: "int \<Rightarrow> 32 word list \<Rightarrow> error + (int \<times> int)" where
  "consumer_audit n ts =
     (case observe_all n (calloc_seen n) ts of
        Inl e \<Rightarrow> Inl e
      | Inr seen \<Rightarrow> audit n seen)"

text \<open>
  What the auditor is expected to report, in the words of its contract and as
  mathematical integers: \<open>missing\<close> is the number of ids in \<open>1..n\<close> whose counter is 0,
  \<open>duplicate\<close> the sum over the ids in \<open>1..n\<close> of \<open>max (counter - 1) 0\<close>.
\<close>

definition spec_missing :: "int \<Rightarrow> 8 word list \<Rightarrow> int" where
  "spec_missing n cs = int (card {k \<in> {1..nat n}. cs ! k = 0})"

definition spec_duplicate :: "int \<Rightarrow> 8 word list \<Rightarrow> int" where
  "spec_duplicate n cs = (\<Sum>k = 1..nat n. max (uint (cs ! k) - 1) 0)"

section \<open>The two processes over the shared ring\<close>

text \<open>
  A run is the interleaving of two sequential processes, the producer (the loop of
  \<^verbatim>\<open>main\<close>, \<^verbatim>\<open>IPC_LINUX.c\<close> lines 200 to 233) and the consumer
  (\<^verbatim>\<open>consumer_process\<close>, lines 93 to 135; \<^verbatim>\<open>run_child\<close> in \<^verbatim>\<open>IPC.c\<close>). Each process
  has a program counter that names the statement it executes next; one step executes
  one statement. The running sums, minima and maxima of the latency statistics are local
  to each process and feed nothing back into the ring, the semaphores or the auditor;
  they are left out, the clock reads they are computed from are kept. The copy of one
  record into or out of its slot is one step; in safe mode nothing is lost by that, since
  the statements of the two processes between the wait and the post on the mutex never
  interleave (lemma \<open>mutual_exclusion\<close>).
\<close>

datatype ppc =
    P_loop          \<comment> \<open>\<^verbatim>\<open>i < n\<close>\<close>
  | P_t0            \<comment> \<open>\<^verbatim>\<open>t0 = now_us()\<close>\<close>
  | P_wait_empty    \<comment> \<open>\<^verbatim>\<open>sem_wait(sem_empty)\<close>\<close>
  | P_wait_mutex    \<comment> \<open>\<^verbatim>\<open>if (!g_unsafe) sem_wait(sem_mutex)\<close>\<close>
  | P_build         \<comment> \<open>the fields of \<^verbatim>\<open>msg\<close>, with \<^verbatim>\<open>msg.t_send_us = now_us()\<close>\<close>
  | P_write         \<comment> \<open>\<^verbatim>\<open>ring->buf[ring->head] = msg\<close>\<close>
  | P_head          \<comment> \<open>\<^verbatim>\<open>ring->head = (ring->head + 1) % RING_CAP\<close>\<close>
  | P_post_mutex    \<comment> \<open>\<^verbatim>\<open>if (!g_unsafe) sem_post(sem_mutex)\<close>\<close>
  | P_post_full     \<comment> \<open>\<^verbatim>\<open>sem_post(sem_full)\<close>\<close>
  | P_t1            \<comment> \<open>\<^verbatim>\<open>t1 = now_us()\<close>, the statistics, \<^verbatim>\<open>i++\<close>\<close>
  | P_done          \<comment> \<open>the loop has ended\<close>

datatype cpc =
    C_loop          \<comment> \<open>\<^verbatim>\<open>i < n\<close>\<close>
  | C_t0            \<comment> \<open>\<^verbatim>\<open>t0 = now_us()\<close>\<close>
  | C_wait_full     \<comment> \<open>\<^verbatim>\<open>sem_wait(sem_full)\<close>\<close>
  | C_wait_mutex    \<comment> \<open>\<^verbatim>\<open>if (!g_unsafe) sem_wait(sem_mutex)\<close>\<close>
  | C_read          \<comment> \<open>\<^verbatim>\<open>TxMsg msg = ring->buf[ring->tail]\<close>\<close>
  | C_tail          \<comment> \<open>\<^verbatim>\<open>ring->tail = (ring->tail + 1) % RING_CAP\<close>\<close>
  | C_post_mutex    \<comment> \<open>\<^verbatim>\<open>if (!g_unsafe) sem_post(sem_mutex)\<close>\<close>
  | C_post_empty    \<comment> \<open>\<^verbatim>\<open>sem_post(sem_empty)\<close>\<close>
  | C_t1            \<comment> \<open>\<^verbatim>\<open>t1 = now_us()\<close>, the statistics\<close>
  | C_observe       \<comment> \<open>the validation of \<^verbatim>\<open>msg.tx_id\<close>, \<^verbatim>\<open>i++\<close>\<close>
  | C_audit         \<comment> \<open>the reporting loop over \<^verbatim>\<open>seen\<close>\<close>
  | C_done          \<comment> \<open>the report is printed\<close>

record sys =
  g_unsafe :: bool              \<comment> \<open>the flag \<^verbatim>\<open>--unsafe\<close>\<close>
  count :: int                  \<comment> \<open>the record count \<^verbatim>\<open>n\<close> of both processes\<close>
  ring :: Ring                  \<comment> \<open>the shared segment\<close>
  sem_empty :: nat              \<comment> \<open>value of the semaphore of free slots\<close>
  sem_full :: nat               \<comment> \<open>value of the semaphore of filled slots\<close>
  sem_mutex :: nat              \<comment> \<open>value of the binary semaphore (unused when unsafe)\<close>
  clock :: int                  \<comment> \<open>what \<^verbatim>\<open>now_us()\<close> returns\<close>
  p_pc :: ppc
  p_i :: int
  p_t0 :: int
  p_msg :: TxMsg
  c_pc :: cpc
  c_i :: int
  c_t0 :: int
  c_msg :: TxMsg
  seen :: "8 word list"
  report :: "(int \<times> int) option"  \<comment> \<open>the printed pair (missing, duplicate)\<close>
  fault :: "error option"       \<comment> \<open>set when a process leaves defined behaviour\<close>

text \<open>
  The state after the set-up of \<^verbatim>\<open>main\<close> and the attachment of the consumer: the
  segment zeroed, \<^verbatim>\<open>sem_empty\<close> at \<^verbatim>\<open>RING_CAP\<close>, \<^verbatim>\<open>sem_full\<close> at 0, the mutex (safe
  mode only) at 1, both loop counters at 0, \<^verbatim>\<open>seen\<close> freshly allocated. The local
  \<^verbatim>\<open>msg\<close> variables are not initialised in the source; they are written before they are
  read, and start here as the zero record.
\<close>

definition init :: "bool \<Rightarrow> int \<Rightarrow> sys" where
  "init u n =
     \<lparr>g_unsafe = u, count = n, ring = zero_ring,
      sem_empty = RING_CAP, sem_full = 0, sem_mutex = (if u then 0 else 1),
      clock = 0,
      p_pc = P_loop, p_i = 0, p_t0 = 0, p_msg = zero_msg,
      c_pc = C_loop, c_i = 0, c_t0 = 0, c_msg = zero_msg,
      seen = calloc_seen n, report = None, fault = None\<rparr>"

text \<open>\<^verbatim>\<open>(x + 1) % RING_CAP\<close> on \<^verbatim>\<open>uint32_t\<close>.\<close>

definition advance :: "32 word \<Rightarrow> 32 word" where
  "advance x = (x + 1) mod (word_of_nat RING_CAP)"

text \<open>The same update in \<^verbatim>\<open>IPC.c\<close>, where the cursors are \<^verbatim>\<open>LONG\<close> (32 bits, signed):
  \<^verbatim>\<open>LONG h = ring->head; ... ring->head = (h + 1) % RING_CAP;\<close>\<close>

definition advance_long :: "int \<Rightarrow> error + int" where
  "advance_long h =
     (case int_add h 1 of Inl e \<Rightarrow> Inl e | Inr h1 \<Rightarrow> Inr (c_rem h1 (int RING_CAP)))"

text \<open>One statement of the producer. A \<^verbatim>\<open>sem_wait\<close> on a semaphore at 0 blocks: the
  state is returned as it is.\<close>

definition producer_step :: "sys \<Rightarrow> sys" where
  "producer_step s =
     (case p_pc s of
        P_loop \<Rightarrow> if p_i s < count s then s\<lparr>p_pc := P_t0\<rparr> else s\<lparr>p_pc := P_done\<rparr>
      | P_t0 \<Rightarrow> s\<lparr>p_t0 := clock s, p_pc := P_wait_empty\<rparr>
      | P_wait_empty \<Rightarrow>
          if sem_empty s = 0 then s
          else s\<lparr>sem_empty := sem_empty s - 1, p_pc := P_wait_mutex\<rparr>
      | P_wait_mutex \<Rightarrow>
          if g_unsafe s then s\<lparr>p_pc := P_build\<rparr>
          else if sem_mutex s = 0 then s
          else s\<lparr>sem_mutex := sem_mutex s - 1, p_pc := P_build\<rparr>
      | P_build \<Rightarrow>
          (case make_msg (p_i s) (clock s) of
             Inl e \<Rightarrow> s\<lparr>fault := Some e\<rparr>
           | Inr m \<Rightarrow> s\<lparr>p_msg := m, p_pc := P_write\<rparr>)
      | P_write \<Rightarrow>
          if unat (head (ring s)) < length (buf (ring s))
          then s\<lparr>ring := (ring s)\<lparr>buf := (buf (ring s))[unat (head (ring s)) := p_msg s]\<rparr>,
                 p_pc := P_head\<rparr>
          else s\<lparr>fault := Some Out_of_bounds\<rparr>
      | P_head \<Rightarrow> s\<lparr>ring := (ring s)\<lparr>head := advance (head (ring s))\<rparr>, p_pc := P_post_mutex\<rparr>
      | P_post_mutex \<Rightarrow>
          if g_unsafe s then s\<lparr>p_pc := P_post_full\<rparr>
          else s\<lparr>sem_mutex := sem_mutex s + 1, p_pc := P_post_full\<rparr>
      | P_post_full \<Rightarrow> s\<lparr>sem_full := sem_full s + 1, p_pc := P_t1\<rparr>
      | P_t1 \<Rightarrow>
          (case int_add (p_i s) 1 of
             Inl e \<Rightarrow> s\<lparr>fault := Some e\<rparr>
           | Inr i' \<Rightarrow> s\<lparr>p_i := i', p_pc := P_loop\<rparr>)
      | P_done \<Rightarrow> s)"

text \<open>One statement of the consumer.\<close>

definition consumer_step :: "sys \<Rightarrow> sys" where
  "consumer_step s =
     (case c_pc s of
        C_loop \<Rightarrow> if c_i s < count s then s\<lparr>c_pc := C_t0\<rparr> else s\<lparr>c_pc := C_audit\<rparr>
      | C_t0 \<Rightarrow> s\<lparr>c_t0 := clock s, c_pc := C_wait_full\<rparr>
      | C_wait_full \<Rightarrow>
          if sem_full s = 0 then s
          else s\<lparr>sem_full := sem_full s - 1, c_pc := C_wait_mutex\<rparr>
      | C_wait_mutex \<Rightarrow>
          if g_unsafe s then s\<lparr>c_pc := C_read\<rparr>
          else if sem_mutex s = 0 then s
          else s\<lparr>sem_mutex := sem_mutex s - 1, c_pc := C_read\<rparr>
      | C_read \<Rightarrow>
          if unat (tail (ring s)) < length (buf (ring s))
          then s\<lparr>c_msg := buf (ring s) ! unat (tail (ring s)), c_pc := C_tail\<rparr>
          else s\<lparr>fault := Some Out_of_bounds\<rparr>
      | C_tail \<Rightarrow> s\<lparr>ring := (ring s)\<lparr>tail := advance (tail (ring s))\<rparr>, c_pc := C_post_mutex\<rparr>
      | C_post_mutex \<Rightarrow>
          if g_unsafe s then s\<lparr>c_pc := C_post_empty\<rparr>
          else s\<lparr>sem_mutex := sem_mutex s + 1, c_pc := C_post_empty\<rparr>
      | C_post_empty \<Rightarrow> s\<lparr>sem_empty := sem_empty s + 1, c_pc := C_t1\<rparr>
      | C_t1 \<Rightarrow> s\<lparr>c_pc := C_observe\<rparr>
      | C_observe \<Rightarrow>
          (case observe (count s) (seen s) (tx_id (c_msg s)) of
             Inl e \<Rightarrow> s\<lparr>fault := Some e\<rparr>
           | Inr seen' \<Rightarrow>
               (case int_add (c_i s) 1 of
                  Inl e \<Rightarrow> s\<lparr>seen := seen', fault := Some e\<rparr>
                | Inr i' \<Rightarrow> s\<lparr>seen := seen', c_i := i', c_pc := C_loop\<rparr>))
      | C_audit \<Rightarrow>
          (case audit (count s) (seen s) of
             Inl e \<Rightarrow> s\<lparr>fault := Some e\<rparr>
           | Inr r \<Rightarrow> s\<lparr>report := Some r, c_pc := C_done\<rparr>)
      | C_done \<Rightarrow> s)"

text \<open>A schedule says which process runs next, or that the clock changes. \<^verbatim>\<open>now_us()\<close>
  reads \<^verbatim>\<open>gettimeofday\<close>, the wall clock, which can be set: \<open>Clock t\<close> puts it at any
  reading \<open>t\<close>, later or earlier than the last. A process that has left defined behaviour
  stops the run.\<close>

datatype actor = Producer | Consumer | Clock int

definition step :: "actor \<Rightarrow> sys \<Rightarrow> sys" where
  "step a s =
     (if fault s \<noteq> None then s
      else case a of
             Producer \<Rightarrow> producer_step s
           | Consumer \<Rightarrow> consumer_step s
           | Clock t \<Rightarrow> s\<lparr>clock := t\<rparr>)"

fun exec :: "actor list \<Rightarrow> sys \<Rightarrow> sys" where
  "exec [] s = s"
| "exec (a # as) s = exec as (step a s)"

definition finished :: "sys \<Rightarrow> bool" where
  "finished s \<longleftrightarrow> p_pc s = P_done \<and> c_pc s = C_done"

text \<open>
  The records a run enqueues, in the order of the writes: a step enqueues when it is the
  producer's statement \<^verbatim>\<open>ring->buf[ring->head] = msg\<close>, and then it enqueues the
  producer's \<^verbatim>\<open>msg\<close>. \<open>emitted sched s\<close> collects them along the schedule; it looks at
  the program counter and at \<^verbatim>\<open>msg\<close> only, not at the loop index.
\<close>

definition enqueues :: "actor \<Rightarrow> sys \<Rightarrow> TxMsg list" where
  "enqueues a s =
     (if a = Producer \<and> fault s = None \<and> p_pc s = P_write
         \<and> unat (head (ring s)) < length (buf (ring s))
      then [p_msg s] else [])"

fun emitted :: "actor list \<Rightarrow> sys \<Rightarrow> TxMsg list" where
  "emitted [] s = []"
| "emitted (a # as) s = enqueues a s @ emitted as (step a s)"

section \<open>Start-up of the launching process\<close>

text \<open>
  The part of \<^verbatim>\<open>main\<close> before the loop (\<^verbatim>\<open>IPC_LINUX.c\<close> lines 159 to 191). The named
  objects of the operating system are a map from names to objects. What the C library
  and the kernel decide is a parameter: \<open>inp\<close> is \<open>None\<close> when \<^verbatim>\<open>scanf("%d", &n)\<close> does
  not return 1 and \<open>Some v\<close> when it stored \<open>v\<close>; \<open>ok c\<close> says whether the call \<open>c\<close>
  succeeds. The result is the exit code or the state the two loops start from, the
  name space, and the lines written to \<^verbatim>\<open>stderr\<close>.
\<close>

datatype obj = Shm "Ring option" | Sem nat

type_synonym kernel = "string \<rightharpoonup> obj"

datatype call = Shm_open | Ftruncate | Mmap | Sem_open_empty | Sem_open_full | Sem_open_mutex | Fork

definition SHM_NAME :: string where "SHM_NAME = ''/hl_bank_shm_ipc''"
definition SEM_EMPTY :: string where "SEM_EMPTY = ''/hl_bank_sem_empty''"
definition SEM_FULL :: string where "SEM_FULL = ''/hl_bank_sem_full''"
definition SEM_MUTEX :: string where "SEM_MUTEX = ''/hl_bank_sem_mutex''"

definition cleanup_ipc :: "kernel \<Rightarrow> kernel" where
  "cleanup_ipc k = k(SHM_NAME := None, SEM_EMPTY := None, SEM_FULL := None, SEM_MUTEX := None)"

text \<open>\<^verbatim>\<open>sem_open(name, O_CREAT, 0600, v)\<close>: an existing semaphore is opened as it is, a
  new one starts at \<open>v\<close>.\<close>

definition sem_open_creat :: "string \<Rightarrow> nat \<Rightarrow> kernel \<Rightarrow> kernel" where
  "sem_open_creat nm v k = (case k nm of None \<Rightarrow> k(nm \<mapsto> Sem v) | Some x \<Rightarrow> k)"

definition sem_value :: "kernel \<Rightarrow> string \<Rightarrow> nat" where
  "sem_value k nm = (case k nm of Some (Sem v) \<Rightarrow> v | _ \<Rightarrow> 0)"

definition shm_ring :: "kernel \<Rightarrow> Ring" where
  "shm_ring k = (case k SHM_NAME of Some (Shm (Some r)) \<Rightarrow> r | _ \<Rightarrow> zero_ring)"

text \<open>The state in which the loops start, read off the objects that exist.\<close>

definition attach :: "bool \<Rightarrow> int \<Rightarrow> kernel \<Rightarrow> sys" where
  "attach u n k =
     \<lparr>g_unsafe = u, count = n, ring = shm_ring k,
      sem_empty = sem_value k SEM_EMPTY, sem_full = sem_value k SEM_FULL,
      sem_mutex = sem_value k SEM_MUTEX,
      clock = 0,
      p_pc = P_loop, p_i = 0, p_t0 = 0, p_msg = zero_msg,
      c_pc = C_loop, c_i = 0, c_t0 = 0, c_msg = zero_msg,
      seen = calloc_seen n, report = None, fault = None\<rparr>"

definition main_startup ::
  "(call \<Rightarrow> bool) \<Rightarrow> bool \<Rightarrow> int option \<Rightarrow> kernel \<Rightarrow> (int + sys) \<times> kernel \<times> string list" where
  "main_startup ok u inp k0 =
     (case inp of
        None \<Rightarrow> (Inl 1, k0, [''Invalid input.''])
      | Some n \<Rightarrow>
          if n \<le> 0 then (Inl 1, k0, [''Invalid input.''])
          else
            let k1 = cleanup_ipc k0 in
            if \<not> ok Shm_open then (Inl 1, k1, [''shm_open(producer)''])
            else
              let k2 = k1(SHM_NAME \<mapsto> Shm None) in
              if \<not> ok Ftruncate then (Inl 1, k2, [''ftruncate''])
              else if \<not> ok Mmap then (Inl 1, k2, [''mmap(producer)''])
              else
                let k3 = k2(SHM_NAME \<mapsto> Shm (Some zero_ring));
                    k4 = (if ok Sem_open_empty then sem_open_creat SEM_EMPTY RING_CAP k3 else k3);
                    k5 = (if ok Sem_open_full then sem_open_creat SEM_FULL 0 k4 else k4)
                in
                  if \<not> u \<and> \<not> ok Sem_open_mutex then (Inl 1, k5, [''sem_open(mutex)''])
                  else
                    let k6 = (if u then k5 else sem_open_creat SEM_MUTEX 1 k5) in
                    if \<not> ok Sem_open_empty \<or> \<not> ok Sem_open_full
                    then (Inl 1, k6, [''sem_open(empty/full)''])
                    else if \<not> ok Fork then (Inl 1, k6, [''fork''])
                    else (Inr (attach u n k6), k6, []))"

section \<open>Bookkeeping for the invariants\<close>

text \<open>
  Where a process stands inside its current iteration, read off its program counter:
  whether it has completed its wait on the counting semaphore, its access to the slot,
  its cursor update, and its post on the other counting semaphore.
\<close>

fun p_waited :: "ppc \<Rightarrow> nat" where
  "p_waited P_loop = 0"
| "p_waited P_t0 = 0"
| "p_waited P_wait_empty = 0"
| "p_waited P_done = 0"
| "p_waited pc = 1"

fun p_wrote :: "ppc \<Rightarrow> nat" where
  "p_wrote P_head = 1"
| "p_wrote P_post_mutex = 1"
| "p_wrote P_post_full = 1"
| "p_wrote P_t1 = 1"
| "p_wrote pc = 0"

fun p_advanced :: "ppc \<Rightarrow> nat" where
  "p_advanced P_post_mutex = 1"
| "p_advanced P_post_full = 1"
| "p_advanced P_t1 = 1"
| "p_advanced pc = 0"

fun p_posted :: "ppc \<Rightarrow> nat" where
  "p_posted P_t1 = 1"
| "p_posted pc = 0"

text \<open>The producer holds the mutex (safe mode) between its wait and its post on it.\<close>

fun p_locked :: "ppc \<Rightarrow> nat" where
  "p_locked P_build = 1"
| "p_locked P_write = 1"
| "p_locked P_head = 1"
| "p_locked P_post_mutex = 1"
| "p_locked pc = 0"

fun c_waited :: "cpc \<Rightarrow> nat" where
  "c_waited C_loop = 0"
| "c_waited C_t0 = 0"
| "c_waited C_wait_full = 0"
| "c_waited C_audit = 0"
| "c_waited C_done = 0"
| "c_waited pc = 1"

fun c_taken :: "cpc \<Rightarrow> nat" where
  "c_taken C_tail = 1"
| "c_taken C_post_mutex = 1"
| "c_taken C_post_empty = 1"
| "c_taken C_t1 = 1"
| "c_taken C_observe = 1"
| "c_taken pc = 0"

fun c_advanced :: "cpc \<Rightarrow> nat" where
  "c_advanced C_post_mutex = 1"
| "c_advanced C_post_empty = 1"
| "c_advanced C_t1 = 1"
| "c_advanced C_observe = 1"
| "c_advanced pc = 0"

fun c_posted :: "cpc \<Rightarrow> nat" where
  "c_posted C_t1 = 1"
| "c_posted C_observe = 1"
| "c_posted pc = 0"

fun c_locked :: "cpc \<Rightarrow> nat" where
  "c_locked C_read = 1"
| "c_locked C_tail = 1"
| "c_locked C_post_mutex = 1"
| "c_locked pc = 0"

text \<open>The number of writes to the ring the producer has completed.\<close>

definition writes_done :: "sys \<Rightarrow> nat" where
  "writes_done s = nat (p_i s) + p_wrote (p_pc s)"

text \<open>The number of slots a process has claimed and not yet handed over: 1 between its
  wait on one counting semaphore and its post on the other.\<close>

definition p_holds :: "sys \<Rightarrow> nat" where
  "p_holds s = p_waited (p_pc s) - p_posted (p_pc s)"

definition c_holds :: "sys \<Rightarrow> nat" where
  "c_holds s = c_waited (c_pc s) - c_posted (c_pc s)"


section \<open>Invariants of a run\<close>

definition cursors_ok :: "sys \<Rightarrow> bool" where
  "cursors_ok s \<longleftrightarrow> unat (head (ring s)) < RING_CAP \<and> unat (tail (ring s)) < RING_CAP"

text \<open>The record \<open>m\<close> is the one the producer builds in iteration \<open>k\<close> (counted from 0),
  at some reading of the clock.\<close>

definition record_of :: "nat \<Rightarrow> TxMsg \<Rightarrow> bool" where
  "record_of k m \<longleftrightarrow> (\<exists>now. make_msg (int k) now = Inr m)"

text \<open>The loop counters stay within \<open>0..count\<close>, and strictly below \<open>count\<close> inside a loop
  body.\<close>

definition inv_ctr :: "sys \<Rightarrow> bool" where
  "inv_ctr s \<longleftrightarrow>
     0 < count s \<and> count s \<le> INT_MAX
     \<and> 0 \<le> p_i s \<and> p_i s \<le> count s \<and> 0 \<le> c_i s \<and> c_i s \<le> count s
     \<and> (p_pc s \<noteq> P_loop \<and> p_pc s \<noteq> P_done \<longrightarrow> p_i s < count s)
     \<and> (p_pc s = P_done \<longrightarrow> p_i s = count s)
     \<and> (c_pc s \<noteq> C_loop \<and> c_pc s \<noteq> C_audit \<and> c_pc s \<noteq> C_done \<longrightarrow> c_i s < count s)
     \<and> (c_pc s = C_audit \<or> c_pc s = C_done \<longrightarrow> c_i s = count s)"

text \<open>The semaphore values account for the completed waits and posts; in safe mode the
  mutex is held by at most one process.\<close>

definition inv_sem :: "sys \<Rightarrow> bool" where
  "inv_sem s \<longleftrightarrow>
     sem_empty s + nat (p_i s) + p_waited (p_pc s) = RING_CAP + nat (c_i s) + c_posted (c_pc s)
     \<and> sem_full s + nat (c_i s) + c_waited (c_pc s) = nat (p_i s) + p_posted (p_pc s)
     \<and> (\<not> g_unsafe s \<longrightarrow> sem_mutex s + p_locked (p_pc s) + c_locked (c_pc s) = 1)"

text \<open>The cursors are the numbers of completed advances modulo the capacity, and every
  record written and not yet taken sits in its slot.\<close>

definition inv_ring :: "sys \<Rightarrow> bool" where
  "inv_ring s \<longleftrightarrow>
     length (buf (ring s)) = RING_CAP
     \<and> unat (head (ring s)) = (nat (p_i s) + p_advanced (p_pc s)) mod RING_CAP
     \<and> unat (tail (ring s)) = (nat (c_i s) + c_advanced (c_pc s)) mod RING_CAP
     \<and> (\<forall>k. nat (c_i s) + c_taken (c_pc s) \<le> k \<and> k < nat (p_i s) + p_wrote (p_pc s)
            \<longrightarrow> record_of k (buf (ring s) ! (k mod RING_CAP)))
     \<and> (p_pc s = P_write \<longrightarrow> record_of (nat (p_i s)) (p_msg s))
     \<and> (c_taken (c_pc s) = 1 \<longrightarrow> record_of (nat (c_i s)) (c_msg s))"

text \<open>The ids \<open>1..c_i\<close> have been observed once each, the others not yet.\<close>

definition inv_seen :: "sys \<Rightarrow> bool" where
  "inv_seen s \<longleftrightarrow>
     length (seen s) = nat (count s) + 1
     \<and> (\<forall>k. 1 \<le> k \<and> k \<le> nat (count s) \<longrightarrow> seen s ! k = (if k \<le> nat (c_i s) then 1 else 0))
     \<and> report s = (if c_pc s = C_done then Some (0, 0) else None)"

text \<open>The only fault of a run is the overflow of the reporting loop at \<^verbatim>\<open>INT_MAX\<close>.\<close>

definition inv_fault :: "sys \<Rightarrow> bool" where
  "inv_fault s \<longleftrightarrow>
     fault s = None
     \<or> (fault s = Some Signed_overflow \<and> count s = INT_MAX \<and> c_pc s = C_audit)"

definition inv :: "sys \<Rightarrow> bool" where
  "inv s \<longleftrightarrow> inv_ctr s \<and> inv_sem s \<and> inv_ring s \<and> inv_seen s \<and> inv_fault s"

section \<open>Progress of a run\<close>

text \<open>A process is blocked when its next statement is a \<^verbatim>\<open>sem_wait\<close> on a semaphore at
  0.\<close>

definition p_blocked :: "sys \<Rightarrow> bool" where
  "p_blocked s \<longleftrightarrow>
     (p_pc s = P_wait_empty \<and> sem_empty s = 0)
     \<or> (p_pc s = P_wait_mutex \<and> \<not> g_unsafe s \<and> sem_mutex s = 0)"

definition c_blocked :: "sys \<Rightarrow> bool" where
  "c_blocked s \<longleftrightarrow>
     (c_pc s = C_wait_full \<and> sem_full s = 0)
     \<or> (c_pc s = C_wait_mutex \<and> \<not> g_unsafe s \<and> sem_mutex s = 0)"

text \<open>The number of statements the two processes have executed.\<close>

fun p_rank :: "ppc \<Rightarrow> nat" where
  "p_rank P_loop = 0"
| "p_rank P_t0 = 1"
| "p_rank P_wait_empty = 2"
| "p_rank P_wait_mutex = 3"
| "p_rank P_build = 4"
| "p_rank P_write = 5"
| "p_rank P_head = 6"
| "p_rank P_post_mutex = 7"
| "p_rank P_post_full = 8"
| "p_rank P_t1 = 9"
| "p_rank P_done = 1"

fun c_rank :: "cpc \<Rightarrow> nat" where
  "c_rank C_loop = 0"
| "c_rank C_t0 = 1"
| "c_rank C_wait_full = 2"
| "c_rank C_wait_mutex = 3"
| "c_rank C_read = 4"
| "c_rank C_tail = 5"
| "c_rank C_post_mutex = 6"
| "c_rank C_post_empty = 7"
| "c_rank C_t1 = 8"
| "c_rank C_observe = 9"
| "c_rank C_audit = 1"
| "c_rank C_done = 2"

definition progress :: "sys \<Rightarrow> nat" where
  "progress s = 10 * nat (p_i s) + p_rank (p_pc s) + 10 * nat (c_i s) + c_rank (c_pc s)"

section \<open>The record the producer builds\<close>

lemma c_rem_nonneg: "0 \<le> a \<Longrightarrow> 0 < b \<Longrightarrow> c_rem a b = a mod b"
  by (cases "a = 0") (simp_all add: c_rem_def)

lemma make_msg_ok:
  assumes "0 \<le> i" "i < INT_MAX"
  shows "make_msg i now =
    Inr \<lparr>tx_id = word_of_int (i + 1), type = word_of_int (i mod 5),
         amount_pence = word_of_int (1000 + i mod 500) * 100,
         t_send_us = word_of_int now,
         payload = format_payload (word_of_int (i + 1)) (types ! nat (i mod 5))\<rparr>"
proof -
  have m5: "0 \<le> i mod 5" "i mod 5 < 5" by simp_all
  have m500: "0 \<le> i mod 500" "i mod 500 < 500" by simp_all
  have u: "unat (word_of_int (i mod 5) :: 32 word) = nat (i mod 5)"
    using m5 by (simp add: unat_eq_nat_uint uint_word_of_int)
  have a1: "int_add i 1 = Inr (i + 1)"
    using assms by (simp add: int_add_def INT_MAX_def INT_MIN_def)
  have a2: "int_add 1000 (i mod 500) = Inr (1000 + i mod 500)"
    using m500 by (simp add: int_add_def INT_MAX_def INT_MIN_def)
  have l: "nat (i mod 5) < length types"
    using m5 by (simp add: types_def)
  show ?thesis
    using assms a1 a2 l by (simp add: make_msg_def c_rem_nonneg u Let_def)
qed

lemma uint32_of_int: "0 \<le> k \<Longrightarrow> k < 4294967296 \<Longrightarrow> uint (word_of_int k :: 32 word) = k"
  by (simp add: uint_word_of_int)

lemma uint_tx: "0 \<le> i \<Longrightarrow> i < INT_MAX \<Longrightarrow> uint (word_of_int (i + 1) :: 32 word) = i + 1"
  using uint32_of_int [of "i + 1"] by (simp add: INT_MAX_def)

lemma make_msg_fields:
  assumes "0 < n" "n \<le> INT_MAX" "0 \<le> i" "i < n"
  shows "\<exists>m. make_msg i now = Inr m
           \<and> uint (tx_id m) = i + 1
           \<and> uint (type m) = (uint (tx_id m) - 1) mod 5
           \<and> uint (amount_pence m) = (1000 + i mod 500) * 100
           \<and> (\<forall>j m'. 0 \<le> j \<and> j < n \<and> make_msg j now' = Inr m' \<and> tx_id m' = tx_id m \<longrightarrow> j = i)"
proof -
  have i: "i < INT_MAX" using assms by simp
  have m5: "0 \<le> i mod 5" "i mod 5 < 5" by simp_all
  have m500: "0 \<le> i mod 500" "i mod 500 < 500" by simp_all
  have ty: "uint (word_of_int (i mod 5) :: 32 word) = i mod 5"
    using m5 by (simp add: uint_word_of_int)
  have "(1000 + i mod 500) * 100 < 2 ^ 64" using m500 by simp
  then have am: "uint ((word_of_int (1000 + i mod 500) :: 64 word) * 100) = (1000 + i mod 500) * 100"
    using m500 by (simp add: uint_word_ariths uint_word_of_int mod_mult_left_eq)
  have inj: "j = i" if "0 \<le> j" "j < n" "make_msg j now' = Inr m'"
      "tx_id m' = (word_of_int (i + 1) :: 32 word)" for j m'
  proof -
    have j: "j < INT_MAX" using that assms by simp
    from that j have "(word_of_int (j + 1) :: 32 word) = word_of_int (i + 1)"
      by (auto simp: make_msg_ok)
    then have "uint (word_of_int (j + 1) :: 32 word) = uint (word_of_int (i + 1) :: 32 word)"
      by simp
    then have "j + 1 = i + 1"
      using that(1) j i assms(3) by (simp only: uint_tx)
    then show ?thesis by simp
  qed
  obtain m where m: "make_msg i now = Inr m"
    and t: "tx_id m = word_of_int (i + 1)"
    and y: "type m = word_of_int (i mod 5)"
    and a: "amount_pence m = word_of_int (1000 + i mod 500) * 100"
    using assms(3) i by (simp add: make_msg_ok)
  have 1: "uint (tx_id m) = i + 1"
    using assms(3) i by (simp only: t uint_tx)
  have 2: "uint (type m) = (uint (tx_id m) - 1) mod 5"
    by (simp only: 1 y ty) simp
  have 3: "uint (amount_pence m) = (1000 + i mod 500) * 100"
    by (simp only: a am)
  have 4: "\<forall>j m'. 0 \<le> j \<and> j < n \<and> make_msg j now' = Inr m' \<and> tx_id m' = tx_id m \<longrightarrow> j = i"
    using inj by (simp only: t) blast
  from m 1 2 3 4 show ?thesis by blast
qed

section \<open>The integrity auditor: observations\<close>

lemma uint_count32: "0 \<le> n \<Longrightarrow> n \<le> INT_MAX \<Longrightarrow> uint (word_of_int n :: 32 word) = n"
  by (simp add: uint_word_of_int INT_MAX_def)

lemma unat_count32: "0 \<le> n \<Longrightarrow> n \<le> INT_MAX \<Longrightarrow> unat (word_of_int n :: 32 word) = nat n"
  using uint_count32 [of n] unat_eq_nat_uint [of "word_of_int n :: 32 word"] by simp

lemma valid_id_iff:
  "0 \<le> n \<Longrightarrow> n \<le> INT_MAX \<Longrightarrow>
   (1 \<le> t \<and> t \<le> (word_of_int n :: 32 word)) \<longleftrightarrow> (1 \<le> uint t \<and> uint t \<le> n)"
  by (simp add: word_le_def uint_count32)

lemma observe_out_of_range:
  "0 \<le> n \<Longrightarrow> n \<le> INT_MAX \<Longrightarrow> uint t < 1 \<or> n < uint t \<Longrightarrow> observe n sn t = Inr sn"
proof -
  assume a: "0 \<le> n" "n \<le> INT_MAX" and b: "uint t < 1 \<or> n < uint t"
  have "\<not> (1 \<le> t \<and> t \<le> (word_of_int n :: 32 word))"
    unfolding valid_id_iff [OF a] using b by linarith
  then show ?thesis unfolding observe_def by (simp only: if_False)
qed

lemma observe_in_range:
  assumes "0 \<le> n" "n \<le> INT_MAX" "1 \<le> uint t" "uint t \<le> n" "length sn = nat n + 1"
  shows "observe n sn t = Inr (sn[unat t := sn ! unat t + 1])"
proof -
  have "int (unat t) = uint t" by simp
  then have l: "unat t < length sn" using assms(3,4,5) by linarith
  have v: "1 \<le> t \<and> t \<le> (word_of_int n :: 32 word)"
    unfolding valid_id_iff [OF assms(1,2)] using assms(3,4) by simp
  show ?thesis unfolding observe_def using l v by simp
qed

lemma observe_length:
  "observe n sn t = Inr sn' \<Longrightarrow> length sn' = length sn"
  by (auto simp: observe_def split: if_splits)

lemma observe_total:
  assumes "0 \<le> n" "n \<le> INT_MAX" "length sn = nat n + 1"
  shows "\<exists>sn'. observe n sn t = Inr sn'"
proof (cases "1 \<le> uint t \<and> uint t \<le> n")
  case True
  then show ?thesis using observe_in_range [OF assms(1,2) _ _ assms(3), of t] by blast
next
  case False
  then have "uint t < 1 \<or> n < uint t" by linarith
  then show ?thesis using observe_out_of_range [OF assms(1,2), of t sn] by blast
qed

lemma observe_counter:
  assumes "0 \<le> n" "n \<le> INT_MAX" "length sn = nat n + 1" "1 \<le> k" "k \<le> n"
    and "observe n sn t = Inr sn'"
  shows "sn' ! nat k = sn ! nat k + (if t = word_of_int k then 1 else 0)"
proof -
  have k: "uint (word_of_int k :: 32 word) = k"
    using assms(2,4,5) by (simp add: uint_count32)
  have kl: "nat k < length sn" using assms(3,4,5) by simp
  show ?thesis
  proof (cases "1 \<le> uint t \<and> uint t \<le> n")
    case True
    have "observe n sn t = Inr (sn[unat t := sn ! unat t + 1])"
      using observe_in_range [OF assms(1,2) _ _ assms(3), of t] True by blast
    then have s: "sn' = sn[unat t := sn ! unat t + 1]"
      using assms(6) by simp
    show ?thesis
    proof (cases "t = word_of_int k")
      case t: True
      have "unat t = nat (uint t)" by simp
      then have "unat t = nat k" unfolding t k .
      then have "sn' ! nat k = sn ! nat k + 1"
        unfolding s using kl by simp
      then show ?thesis using t by simp
    next
      case f: False
      have "uint t \<noteq> k" using f k by (metis word_of_int_uint)
      moreover have "int (unat t) = uint t" by simp
      ultimately have "unat t \<noteq> nat k" using assms(4) by linarith
      then have "sn' ! nat k = sn ! nat k"
        unfolding s by simp
      then show ?thesis using f by simp
    qed
  next
    case False
    then have o: "uint t < 1 \<or> n < uint t" by linarith
    have "uint t \<noteq> k" using o assms(4,5) by linarith
    then have f: "t \<noteq> word_of_int k" using k by auto
    have "observe n sn t = Inr sn"
      using observe_out_of_range [OF assms(1,2) o] .
    then have "sn' = sn" using assms(6) by simp
    then show ?thesis using f by simp
  qed
qed

lemma observe_all_length:
  "observe_all n sn ts = Inr sn' \<Longrightarrow> length sn' = length sn"
  by (induction ts arbitrary: sn) (auto split: sum.splits dest: observe_length)

lemma observe_all_total:
  assumes "0 \<le> n" "n \<le> INT_MAX" "length sn = nat n + 1"
  shows "\<exists>sn'. observe_all n sn ts = Inr sn'"
  using assms(3)
proof (induction ts arbitrary: sn)
  case Nil then show ?case by simp
next
  case (Cons t ts)
  obtain s1 where s1: "observe n sn t = Inr s1"
    using observe_total [OF assms(1,2) Cons.prems] by blast
  then have "length s1 = nat n + 1" using Cons.prems by (simp add: observe_length)
  then show ?case using Cons.IH s1 by simp
qed

lemma observe_all_counter:
  assumes "0 \<le> n" "n \<le> INT_MAX" "1 \<le> k" "k \<le> n"
  shows "length sn = nat n + 1 \<Longrightarrow> observe_all n sn ts = Inr sn' \<Longrightarrow>
         sn' ! nat k = sn ! nat k + word_of_nat (count_list ts (word_of_int k))"
proof (induction ts arbitrary: sn)
  case Nil then show ?case by simp
next
  case (Cons t ts)
  obtain s1 where s1: "observe n sn t = Inr s1"
    using observe_total [OF assms(1,2) Cons.prems(1)] by blast
  have l: "length s1 = nat n + 1" using s1 Cons.prems by (simp add: observe_length)
  have r: "observe_all n s1 ts = Inr sn'" using Cons.prems s1 by simp
  have c: "s1 ! nat k = sn ! nat k + (if t = word_of_int k then 1 else 0)"
    using observe_counter [OF assms(1,2) Cons.prems(1) assms(3,4) s1] .
  show ?case using Cons.IH [OF l r] c by simp
qed

section \<open>The integrity auditor: the report\<close>

lemma word8_gt1: "(1 < (c :: 8 word)) \<longleftrightarrow> 1 < uint c"
  by (simp add: word_less_def)

lemma word8_zero: "((c :: 8 word) = 0) \<longleftrightarrow> uint c = 0"
  by (simp add: uint_0_iff)

lemma uint8_bound: "uint (c :: 8 word) \<le> 255"
  using uint_bounded [of c] by simp

lemma audit_body_ok:
  assumes "0 \<le> i" "nat i < length cs" "0 \<le> m" "m < INT_MAX" "0 \<le> d"
    and "d + max (uint (cs ! nat i) - 1) 0 \<le> INT_MAX"
  shows "audit_body cs i (m, d) =
           Inr (m + (if cs ! nat i = 0 then 1 else 0), d + max (uint (cs ! nat i) - 1) 0)"
proof -
  have g: "\<not> (i < 0 \<or> length cs \<le> nat i)" using assms(1,2) by simp
  have a: "int_add m 1 = Inr (m + 1)"
    using assms(3,4) by (simp add: int_add_def INT_MIN_def)
  have b: "int_add d (uint (cs ! nat i) - 1) = Inr (d + (uint (cs ! nat i) - 1))"
    if "1 < uint (cs ! nat i)"
    using that assms(5,6) by (simp add: int_add_def INT_MIN_def)
  show ?thesis
    unfolding audit_body_def using g a b
    by (simp add: word8_gt1 max_def)
qed

lemma audit_loop_ok:
  assumes "n \<le> INT_MAX" "length cs = nat n + 1"
  shows "1 \<le> i \<Longrightarrow> i \<le> n \<or> (i = n + 1 \<and> n < INT_MAX) \<Longrightarrow> 0 \<le> m \<Longrightarrow> m + (n + 1 - i) \<le> INT_MAX \<Longrightarrow> 0 \<le> d \<Longrightarrow>
         d + (\<Sum>k = nat i..nat n. max (uint (cs ! k) - 1) 0) \<le> INT_MAX \<Longrightarrow>
         audit_loop n cs i (m, d) =
           (if n = INT_MAX then Inl Signed_overflow
            else Inr (m + (\<Sum>k = nat i..nat n. if cs ! k = 0 then 1 else 0),
                      d + (\<Sum>k = nat i..nat n. max (uint (cs ! k) - 1) 0)))"
proof (induction "nat (n + 1 - i)" arbitrary: i m d)
  case 0
  then have e: "i = n + 1" "n < INT_MAX" by auto
  then have "nat n < nat i" using 0 by simp
  then show ?case using e by (subst audit_loop.simps) simp
next
  case (Suc x)
  then have le: "i \<le> n" by linarith
  let ?c = "cs ! nat i"
  let ?t = "max (uint ?c - 1) 0"
  let ?z = "(if ?c = 0 then 1 else 0) :: int"
  have ni: "nat i \<le> nat n" using le Suc.prems by simp
  have split_d: "(\<Sum>k = nat i..nat n. max (uint (cs ! k) - 1) 0)
                 = ?t + (\<Sum>k = nat (i + 1)..nat n. max (uint (cs ! k) - 1) 0)"
    using ni Suc.prems(1) by (simp add: sum.atLeast_Suc_atMost nat_add_distrib)
  have split_m: "(\<Sum>k = nat i..nat n. if cs ! k = 0 then 1 else 0)
                 = ?z + (\<Sum>k = nat (i + 1)..nat n. if cs ! k = 0 then 1 else (0::int))"
    using ni Suc.prems(1) by (simp add: sum.atLeast_Suc_atMost nat_add_distrib)
  have rest_nonneg: "0 \<le> (\<Sum>k = nat (i + 1)..nat n. max (uint (cs ! k) - 1) 0)"
    by (rule sum_nonneg) simp
  have body: "audit_body cs i (m, d) = Inr (m + ?z, d + ?t)"
  proof (rule audit_body_ok)
    show "0 \<le> i" using Suc.prems by simp
    show "nat i < length cs" using ni assms(2) by simp
    show "0 \<le> m" by fact
    show "m < INT_MAX" using Suc.prems(4) le by linarith
    show "0 \<le> d" by fact
    show "d + ?t \<le> INT_MAX" using Suc.prems(6) rest_nonneg unfolding split_d by linarith
  qed
  show ?case
  proof (cases "i = INT_MAX")
    case True
    then have n: "n = INT_MAX" using le assms(1) by simp
    have "int_add i 1 = Inl Signed_overflow"
      using True by (simp add: int_add_def INT_MAX_def)
    then show ?thesis using le body n by (subst audit_loop.simps) simp
  next
    case False
    then have i1: "i < INT_MAX" using le assms(1) by simp
    have a: "int_add i 1 = Inr (i + 1)"
      using i1 Suc.prems(1) by (simp add: int_add_def INT_MAX_def INT_MIN_def)
    have z: "0 \<le> ?z" "?z \<le> 1" by simp_all
    have IH: "audit_loop n cs (i + 1) (m + ?z, d + ?t) =
           (if n = INT_MAX then Inl Signed_overflow
            else Inr (m + ?z + (\<Sum>k = nat (i + 1)..nat n. if cs ! k = 0 then 1 else 0),
                      d + ?t + (\<Sum>k = nat (i + 1)..nat n. max (uint (cs ! k) - 1) 0)))"
    proof (rule Suc.hyps(1))
      show "x = nat (n + 1 - (i + 1))" using Suc.hyps(2) by linarith
      show "1 \<le> i + 1" using Suc.prems(1) by simp
      show "i + 1 \<le> n \<or> i + 1 = n + 1 \<and> n < INT_MAX" using le i1 by linarith
      show "0 \<le> m + ?z" using Suc.prems(3) z by linarith
      show "m + ?z + (n + 1 - (i + 1)) \<le> INT_MAX" using Suc.prems(4) z by linarith
      show "0 \<le> d + ?t" using Suc.prems(5) by simp
      show "d + ?t + (\<Sum>k = nat (i + 1)..nat n. max (uint (cs ! k) - 1) 0) \<le> INT_MAX"
        using Suc.prems(6) unfolding split_d by linarith
    qed
    show ?thesis
      apply (subst audit_loop.simps)
      apply (simp only: le if_True body sum.case a IH split_d split_m)
      apply (simp add: add.assoc)
      done
  qed
qed

lemma unat8_succ_le: "unat ((c :: 8 word) + 1) \<le> unat c + 1"
  by (simp add: unat_word_ariths)

lemma observe_sum_le:
  assumes "observe n cs t = Inr cs'"
  shows "sum_list (map unat cs') \<le> sum_list (map unat cs) + 1"
proof (cases "cs' = cs")
  case True then show ?thesis by simp
next
  case False
  then have j: "unat t < length cs" and u: "cs' = cs[unat t := cs ! unat t + 1]"
    using assms by (auto simp: observe_def split: if_splits)
  have "sum_list (map unat cs') = sum_list ((map unat cs)[unat t := unat (cs ! unat t + 1)])"
    unfolding u by (simp add: map_update)
  also have "\<dots> = sum_list (map unat cs) + unat (cs ! unat t + 1) - unat (cs ! unat t)"
    using j by (simp add: sum_list_update)
  also have "\<dots> \<le> sum_list (map unat cs) + 1"
    using unat8_succ_le [of "cs ! unat t"] by linarith
  finally show ?thesis .
qed

lemma observe_all_sum_le:
  "observe_all n cs ts = Inr cs' \<Longrightarrow>
   sum_list (map unat cs') \<le> sum_list (map unat cs) + length ts"
proof (induction ts arbitrary: cs)
  case Nil then show ?case by simp
next
  case (Cons t ts)
  then obtain c1 where c1: "observe n cs t = Inr c1" and r: "observe_all n c1 ts = Inr cs'"
    by (auto split: sum.splits)
  show ?case using Cons.IH [OF r] observe_sum_le [OF c1] by simp
qed

lemma sum_list_calloc: "sum_list (map unat (calloc_seen n)) = 0"
  by (simp add: calloc_seen_def)

lemma duplicate_le_sum_list:
  assumes "length cs = nat n + 1"
  shows "(\<Sum>k = 1..nat n. max (uint (cs ! k) - 1) 0) \<le> int (sum_list (map unat cs))"
proof -
  have "(\<Sum>k = 1..nat n. max (uint (cs ! k) - 1) 0) \<le> (\<Sum>k = 1..nat n. int (unat (cs ! k)))"
    by (rule sum_mono) simp
  also have "\<dots> \<le> (\<Sum>k = 0..<length cs. int (unat (cs ! k)))"
    by (rule sum_mono2) (use assms in auto)
  also have "\<dots> = int (\<Sum>k = 0..<length cs. unat (cs ! k))"
    by simp
  also have "\<dots> = int (sum_list (map unat cs))"
    by (simp add: sum_list_sum_nth)
  finally show ?thesis .
qed

lemma missing_as_sum:
  "spec_missing n cs = (\<Sum>k = 1..nat n. if cs ! k = 0 then 1 else 0)"
proof -
  have "(\<Sum>k = 1..nat n. if cs ! k = 0 then 1 else 0)
          = (\<Sum>k \<in> {k \<in> {1..nat n}. cs ! k = 0}. (1::int))"
    by (rule sum.inter_filter [symmetric]) simp
  also have "\<dots> = int (card {k \<in> {1..nat n}. cs ! k = 0})"
    by simp
  finally show ?thesis unfolding spec_missing_def by simp
qed

lemma audit_ok:
  assumes "0 \<le> n" "n \<le> INT_MAX" "length cs = nat n + 1" "int (sum_list (map unat cs)) \<le> INT_MAX"
  shows "audit n cs =
           (if n = INT_MAX then Inl Signed_overflow
            else Inr (spec_missing n cs, spec_duplicate n cs))"
proof -
  have d: "0 + (\<Sum>k = nat 1..nat n. max (uint (cs ! k) - 1) 0) \<le> INT_MAX"
    using duplicate_le_sum_list [OF assms(3)] assms(4) by simp
  have c: "1 \<le> n \<or> (1 = n + 1 \<and> n < INT_MAX)"
    using assms(1) by (auto simp: INT_MAX_def)
  have m: "0 + (n + 1 - 1) \<le> INT_MAX" using assms(2) by simp
  have "audit_loop n cs 1 (0, 0) =
           (if n = INT_MAX then Inl Signed_overflow
            else Inr (0 + (\<Sum>k = nat 1..nat n. if cs ! k = 0 then 1 else 0),
                      0 + (\<Sum>k = nat 1..nat n. max (uint (cs ! k) - 1) 0)))"
    using c m d by (intro audit_loop_ok [OF assms(2,3)]) simp_all
  then show ?thesis
    unfolding audit_def missing_as_sum spec_duplicate_def by simp
qed

lemma audit_loop_INT_MAX:
  "i \<le> INT_MAX \<Longrightarrow> \<exists>e. audit_loop INT_MAX cs i acc = Inl e"
proof (induction "nat (INT_MAX - i)" arbitrary: i acc)
  case 0
  then have i: "i = INT_MAX" by simp
  have "int_add i 1 = Inl Signed_overflow" using i by (simp add: int_add_def)
  then show ?case using i
    by (subst audit_loop.simps) (simp split: sum.splits)
next
  case (Suc x)
  show ?case
  proof (cases "audit_body cs i acc")
    case (Inl e)
    then show ?thesis using Suc.prems by (subst audit_loop.simps) simp
  next
    case (Inr acc')
    show ?thesis
    proof (cases "int_add i 1")
      case (Inl e)
      then show ?thesis using Suc.prems Inr by (subst audit_loop.simps) simp
    next
      case r: (Inr i')
      then have i': "i' = i + 1" by (auto simp: int_add_def split: if_splits)
      have "\<exists>e. audit_loop INT_MAX cs i' acc' = Inl e"
        using Suc.hyps(2) Suc.prems unfolding i'
        by (intro Suc.hyps(1)) linarith+
      then show ?thesis using Suc.prems Inr r by (subst audit_loop.simps) simp
    qed
  qed
qed

lemma consumer_audit_ok:
  assumes "0 \<le> n" "n \<le> INT_MAX" "int (length ts) \<le> INT_MAX"
  shows "\<exists>cs. observe_all n (calloc_seen n) ts = Inr cs
            \<and> length cs = nat n + 1
            \<and> (\<forall>k. 1 \<le> k \<and> k \<le> n \<longrightarrow> cs ! nat k = word_of_nat (count_list ts (word_of_int k)))
            \<and> consumer_audit n ts =
                (if n = INT_MAX then Inl Signed_overflow
                 else Inr (spec_missing n cs, spec_duplicate n cs))"
proof -
  have l0: "length (calloc_seen n) = nat n + 1" by (simp add: calloc_seen_def)
  obtain cs where cs: "observe_all n (calloc_seen n) ts = Inr cs"
    using observe_all_total [OF assms(1,2) l0] by blast
  have l: "length cs = nat n + 1" using observe_all_length [OF cs] l0 by simp
  have c: "cs ! nat k = word_of_nat (count_list ts (word_of_int k))" if "1 \<le> k" "k \<le> n" for k
  proof -
    have "calloc_seen n ! nat k = 0" using that by (simp add: calloc_seen_def)
    then show ?thesis using observe_all_counter [OF assms(1,2) that l0 cs] by simp
  qed
  have "sum_list (map unat cs) \<le> length ts"
    using observe_all_sum_le [OF cs] by (simp add: sum_list_calloc)
  then have b: "int (sum_list (map unat cs)) \<le> INT_MAX" using assms(3) by linarith
  have "consumer_audit n ts = audit n cs" by (simp add: consumer_audit_def cs)
  then show ?thesis using cs l c audit_ok [OF assms(1,2) l b] by auto
qed

lemma count_list_replicate_same: "count_list (replicate j x) x = j"
  by (induction j) simp_all

text \<open>
  Claim C4. For every \<open>n > 0\<close> and every sequence of consumed ids the auditor keeps one
  counter per id in \<open>1..n\<close>, incremented on each valid observation, and reports
  \<open>missing\<close> and \<open>duplicate\<close> as the contract defines them. Lemma \<open>consumer_audit_ok\<close>
  proves this for every \<open>n\<close> below \<^verbatim>\<open>INT_MAX\<close>: the counter of id \<open>k\<close> is the number of
  occurrences of \<open>k\<close> modulo 256 and the report is \<open>(spec_missing, spec_duplicate)\<close>. At
  \<open>n = INT_MAX\<close>, a value \<^verbatim>\<open>scanf("%d")\<close> accepts, the reporting loop
  \<^verbatim>\<open>for (int id = 1; id <= n; id++)\<close> increments \<open>id\<close> past \<^verbatim>\<open>INT_MAX\<close> after its last
  iteration; the theorem states that no report is returned then, whatever was consumed.
\<close>

theorem auditor_no_report_at_INT_MAX:
  "\<not> (\<exists>r. consumer_audit INT_MAX ts = Inr r)
   \<and> (int (length ts) \<le> INT_MAX \<longrightarrow> consumer_audit INT_MAX ts = Inl Signed_overflow)"
proof
  have a: "audit INT_MAX cs \<noteq> Inr r" for cs r
    using audit_loop_INT_MAX [of 1 cs "(0, 0)"] by (auto simp: audit_def INT_MAX_def)
  show "\<not> (\<exists>r. consumer_audit INT_MAX ts = Inr r)"
    unfolding consumer_audit_def
    by (cases "observe_all INT_MAX (calloc_seen INT_MAX) ts") (simp_all add: a)
  have p: "0 \<le> INT_MAX" by (simp add: INT_MAX_def)
  show "int (length ts) \<le> INT_MAX \<longrightarrow> consumer_audit INT_MAX ts = Inl Signed_overflow"
    using consumer_audit_ok [OF p order_refl, of ts] by auto
qed

text \<open>At \<open>n = INT_MAX\<close> the overflow is the outcome already for three consumed records.\<close>

theorem auditor_no_report_at_INT_MAX_witness:
  "consumer_audit INT_MAX [1, 1, 2] = Inl Signed_overflow"
  using auditor_no_report_at_INT_MAX [of "[1, 1, 2]"] by (simp add: INT_MAX_def)

text \<open>
  Claim C6. When the consumer validates a record whose id lies outside \<open>1..n\<close>, the
  guard keeps it away from the array \<open>seen\<close>: the observation returns the counters
  unchanged, the step raises no fault, the report is untouched, and the loop counter
  still advances, so the record is one of the \<open>n\<close> iterations.
\<close>

theorem out_of_range_id_ignored:
  assumes "0 < count s" "count s \<le> INT_MAX" "0 \<le> c_i s" "c_i s < count s"
    and "c_pc s = C_observe" "fault s = None"
    and "uint (tx_id (c_msg s)) < 1 \<or> count s < uint (tx_id (c_msg s))"
  shows "observe (count s) (seen s) (tx_id (c_msg s)) = Inr (seen s)
         \<and> fault (step Consumer s) = None
         \<and> seen (step Consumer s) = seen s
         \<and> report (step Consumer s) = report s
         \<and> c_i (step Consumer s) = c_i s + 1
         \<and> c_pc (step Consumer s) = C_loop"
proof -
  have o: "observe (count s) (seen s) (tx_id (c_msg s)) = Inr (seen s)"
    using assms(1,2,7) by (intro observe_out_of_range) simp_all
  have a: "int_add (c_i s) 1 = Inr (c_i s + 1)"
    using assms(2,3,4) by (simp add: int_add_def INT_MIN_def)
  have "step Consumer s = s\<lparr>seen := seen s, c_i := c_i s + 1, c_pc := C_loop\<rparr>"
    using assms(5,6) by (simp add: step_def consumer_step_def o a)
  then show ?thesis using o assms(6) by simp
qed

text \<open>The hypotheses of C6 hold for \<open>n = 5\<close> in the third iteration with the id 9.\<close>

theorem out_of_range_id_ignored_witness:
  "fault (step Consumer
     ((init False 5)\<lparr>c_pc := C_observe, c_i := 2, c_msg := zero_msg\<lparr>tx_id := 9\<rparr>\<rparr>)) = None
   \<and> seen (step Consumer
     ((init False 5)\<lparr>c_pc := C_observe, c_i := 2, c_msg := zero_msg\<lparr>tx_id := 9\<rparr>\<rparr>))
       = seen (init False 5)
   \<and> c_i (step Consumer
     ((init False 5)\<lparr>c_pc := C_observe, c_i := 2, c_msg := zero_msg\<lparr>tx_id := 9\<rparr>\<rparr>)) = 3
   \<and> c_pc (step Consumer
     ((init False 5)\<lparr>c_pc := C_observe, c_i := 2, c_msg := zero_msg\<lparr>tx_id := 9\<rparr>\<rparr>)) = C_loop"
  using out_of_range_id_ignored
    [of "(init False 5)\<lparr>c_pc := C_observe, c_i := 2, c_msg := zero_msg\<lparr>tx_id := 9\<rparr>\<rparr>"]
  by (simp add: init_def INT_MAX_def zero_msg_def)

lemma counter_is_count_mod:
  assumes "0 < n" "n \<le> INT_MAX" "int (length ts) \<le> INT_MAX" "1 \<le> k" "k \<le> n"
  shows "\<exists>cs. observe_all n (calloc_seen n) ts = Inr cs
            \<and> unat (cs ! nat k) = count_list ts (word_of_int k) mod 256"
proof -
  have n0: "0 \<le> n" using assms(1) by simp
  obtain cs where cs: "observe_all n (calloc_seen n) ts = Inr cs"
    and c: "\<forall>k. 1 \<le> k \<and> k \<le> n \<longrightarrow> cs ! nat k = word_of_nat (count_list ts (word_of_int k))"
    using consumer_audit_ok [OF n0 assms(2,3)] by blast
  have "cs ! nat k = (word_of_nat (count_list ts (word_of_int k)) :: 8 word)"
    using c assms(4,5) by blast
  then have "unat (cs ! nat k) = count_list ts (word_of_int k) mod 256"
    by (simp add: unat_of_nat)
  then show ?thesis using cs by blast
qed

lemma counter_of_repeated_id:
  assumes "int j \<le> INT_MAX"
  shows "\<exists>cs. observe_all 256 (calloc_seen 256) (replicate j 1) = Inr cs
            \<and> unat (cs ! 1) = j mod 256"
proof -
  have h: "(0::int) < 256" "(256::int) \<le> INT_MAX" "int (length (replicate j (1::32 word))) \<le> INT_MAX"
    "(1::int) \<le> 1" "(1::int) \<le> 256"
    using assms by (simp_all add: INT_MAX_def)
  from counter_is_count_mod [OF h]
  obtain cs where "observe_all 256 (calloc_seen 256) (replicate j 1) = Inr cs"
    and "unat (cs ! nat 1) = count_list (replicate j (1::32 word)) (word_of_int 1) mod 256"
    by blast
  then show ?thesis by (auto simp: count_list_replicate_same)
qed

text \<open>
  Claim C10. The counters are 8 bits wide and their increments wrap modulo 256: after
  any sequence of consumed ids the counter of an id in \<open>1..n\<close> is the number of its
  occurrences modulo 256. With \<open>n = 256\<close> and the id 1 repeated, 255 observations leave
  its counter at 255 and the report at \<open>(255, 254)\<close>; 256 observations leave the counter
  at 0, so that the id is counted as missing and adds nothing to \<open>duplicate\<close> (report
  \<open>(256, 0)\<close>); 257 observations leave it at 1 (report \<open>(255, 0)\<close>). One iteration of the
  reporting loop raises \<open>duplicate\<close> by at most 254.
\<close>

theorem counter_wraps_at_256:
  "(\<forall>n ts k. 0 < n \<and> n \<le> INT_MAX \<and> int (length ts) \<le> INT_MAX \<and> 1 \<le> k \<and> k \<le> n \<longrightarrow>
      (\<exists>cs. observe_all n (calloc_seen n) ts = Inr cs
            \<and> unat (cs ! nat k) = count_list ts (word_of_int k) mod 256))
   \<and> count_list (replicate 256 (1 :: 32 word)) 1 = 256
   \<and> (\<exists>cs. observe_all 256 (calloc_seen 256) (replicate 255 1) = Inr cs \<and> cs ! 1 = 255)
   \<and> (\<exists>cs. observe_all 256 (calloc_seen 256) (replicate 256 1) = Inr cs \<and> cs ! 1 = 0)
   \<and> (\<exists>cs. observe_all 256 (calloc_seen 256) (replicate 257 1) = Inr cs \<and> cs ! 1 = 1)
   \<and> consumer_audit 256 (replicate 255 1) = Inr (255, 254)
   \<and> consumer_audit 256 (replicate 256 1) = Inr (256, 0)
   \<and> consumer_audit 256 (replicate 257 1) = Inr (255, 0)
   \<and> (\<forall>cs i m d m' d'. audit_body cs i (m, d) = Inr (m', d') \<longrightarrow> d' - d \<le> 254)"
proof (intro conjI allI impI)
  fix n :: int and ts :: "32 word list" and k :: int
  assume "0 < n \<and> n \<le> INT_MAX \<and> int (length ts) \<le> INT_MAX \<and> 1 \<le> k \<and> k \<le> n"
  then show "\<exists>cs. observe_all n (calloc_seen n) ts = Inr cs
            \<and> unat (cs ! nat k) = count_list ts (word_of_int k) mod 256"
    using counter_is_count_mod [of n ts k] by blast
next
  show "count_list (replicate 256 (1 :: 32 word)) 1 = 256"
    by (rule count_list_replicate_same)
next
  have "int 255 \<le> INT_MAX" by (simp add: INT_MAX_def)
  from counter_of_repeated_id [OF this]
  obtain cs where o: "observe_all 256 (calloc_seen 256) (replicate 255 1) = Inr cs"
    and u: "unat (cs ! 1) = 255 mod 256" by blast
  from u have "unat (cs ! 1) = unat (255 :: 8 word)" by simp
  then have "cs ! 1 = 255" by (simp only: word_unat_eq_iff)
  then show "\<exists>cs. observe_all 256 (calloc_seen 256) (replicate 255 1) = Inr cs \<and> cs ! 1 = 255"
    using o by blast
next
  have "int 256 \<le> INT_MAX" by (simp add: INT_MAX_def)
  from counter_of_repeated_id [OF this]
  obtain cs where o: "observe_all 256 (calloc_seen 256) (replicate 256 1) = Inr cs"
    and u: "unat (cs ! 1) = 256 mod 256" by blast
  from u have "unat (cs ! 1) = unat (0 :: 8 word)" by simp
  then have "cs ! 1 = 0" by (simp only: word_unat_eq_iff)
  then show "\<exists>cs. observe_all 256 (calloc_seen 256) (replicate 256 1) = Inr cs \<and> cs ! 1 = 0"
    using o by blast
next
  have "int 257 \<le> INT_MAX" by (simp add: INT_MAX_def)
  from counter_of_repeated_id [OF this]
  obtain cs where o: "observe_all 256 (calloc_seen 256) (replicate 257 1) = Inr cs"
    and u: "unat (cs ! 1) = 257 mod 256" by blast
  from u have "unat (cs ! 1) = unat (1 :: 8 word)" by simp
  then have "cs ! 1 = 1" by (simp only: word_unat_eq_iff)
  then show "\<exists>cs. observe_all 256 (calloc_seen 256) (replicate 257 1) = Inr cs \<and> cs ! 1 = 1"
    using o by blast
next
  show "consumer_audit 256 (replicate 255 1) = Inr (255, 254)" by code_simp
next
  show "consumer_audit 256 (replicate 256 1) = Inr (256, 0)" by code_simp
next
  show "consumer_audit 256 (replicate 257 1) = Inr (255, 0)" by code_simp
next
  fix cs :: "8 word list" and i m d m' d' :: int
  assume "audit_body cs i (m, d) = Inr (m', d')"
  then have "d' = d \<or> d' = d + (uint (cs ! nat i) - 1)"
    by (auto simp: audit_body_def int_add_def split: if_splits)
  then show "d' - d \<le> 254" using uint8_bound [of "cs ! nat i"] by auto
qed

text \<open>The hypotheses of C10 at \<open>n = 3\<close>: the id 2 occurs three times among five consumed
  ids, one of them out of range, and its counter ends at 3; the bound on one id's share
  of \<open>duplicate\<close> is attained by a counter at 255.\<close>

theorem counter_wraps_at_256_witness:
  "(\<exists>cs. observe_all 3 (calloc_seen 3) [2, 9, 2, 1, 2] = Inr cs \<and> unat (cs ! 2) = 3)
   \<and> audit_body [0, 255] 1 (0, 0) = Inr (0, 254) \<and> (254 :: int) - 0 \<le> 254"
proof -
  have e: "audit_body [0, 255] 1 (0, 0) = Inr (0, 254)"
    by (simp add: audit_body_def int_add_def INT_MAX_def INT_MIN_def)
  have h: "(0::int) < 3 \<and> (3::int) \<le> INT_MAX \<and> int (length [2, 9, 2, 1, 2 :: 32 word]) \<le> INT_MAX
           \<and> (1::int) \<le> 2 \<and> (2::int) \<le> 3"
    by (simp add: INT_MAX_def)
  from counter_wraps_at_256 h
  have "\<exists>cs. observe_all 3 (calloc_seen 3) [2, 9, 2, 1, 2] = Inr cs
          \<and> unat (cs ! nat 2) = count_list [2, 9, 2, 1, 2 :: 32 word] (word_of_int 2) mod 256"
    by blast
  then have 1: "\<exists>cs. observe_all 3 (calloc_seen 3) [2, 9, 2, 1, 2] = Inr cs \<and> unat (cs ! 2) = 3"
    by simp
  from counter_wraps_at_256
  have "audit_body [0, 255] 1 (0, 0) = Inr (0, 254) \<longrightarrow> (254::int) - 0 \<le> 254"
    by blast
  with e 1 show ?thesis by blast
qed

section \<open>Invalid record counts\<close>

text \<open>
  Claim C7. When the read of the record count fails (\<^verbatim>\<open>scanf\<close> does not return 1) or the
  count is zero or negative, \<^verbatim>\<open>main\<close> writes \<^verbatim>\<open>Invalid input.\<close> to \<^verbatim>\<open>stderr\<close> and
  returns 1; the test comes before \<^verbatim>\<open>cleanup_ipc\<close>, \<^verbatim>\<open>shm_open\<close> and \<^verbatim>\<open>sem_open\<close>, so
  the named objects are as they were: no segment and no semaphore has been created.
\<close>

theorem invalid_count_exits:
  assumes "inp = None \<or> (\<exists>n. inp = Some n \<and> n \<le> 0)"
  shows "main_startup ok u inp k = (Inl 1, k, [''Invalid input.''])"
  using assms by (auto simp: main_startup_def)

text \<open>The hypothesis of C7 holds for the inputs 0 and -3 and for a failed read.\<close>

theorem invalid_count_exits_witness:
  "main_startup (\<lambda>c. True) False (Some 0) Map.empty = (Inl 1, Map.empty, [''Invalid input.''])
   \<and> main_startup (\<lambda>c. True) False (Some (- 3)) Map.empty = (Inl 1, Map.empty, [''Invalid input.''])
   \<and> main_startup (\<lambda>c. True) True None Map.empty = (Inl 1, Map.empty, [''Invalid input.''])"
  using invalid_count_exits [of "Some 0" "\<lambda>c. True" False Map.empty]
    invalid_count_exits [of "Some (- 3)" "\<lambda>c. True" False Map.empty]
    invalid_count_exits [of None "\<lambda>c. True" True Map.empty]
  by simp

section \<open>The cursors\<close>

lemma advance_lt: "unat (advance x) < RING_CAP"
proof -
  have "unat (x + 1) mod 1024 < 1024" by simp
  then show ?thesis by (simp add: advance_def RING_CAP_def unat_mod)
qed

lemma advance_long_agrees:
  assumes "0 \<le> h" "h < int RING_CAP"
  shows "advance_long h = Inr (uint (advance (word_of_int h)))"
proof -
  have a: "int_add h 1 = Inr (h + 1)"
    using assms by (simp add: int_add_def INT_MIN_def INT_MAX_def RING_CAP_def)
  have "uint (word_of_int h :: 32 word) = h"
    using assms by (intro uint32_of_int) (simp_all add: RING_CAP_def)
  then have "uint (advance (word_of_int h)) = (h + 1) mod 1024"
    using assms
    by (simp add: advance_def RING_CAP_def uint_mod uint_word_ariths mod_mod_cancel del: of_int_add)
  moreover have "c_rem (h + 1) (int RING_CAP) = (h + 1) mod 1024"
    using assms by (simp add: c_rem_nonneg RING_CAP_def)
  ultimately show ?thesis by (simp add: advance_long_def a)
qed

lemma cursors_ok_init: "cursors_ok (init u n)"
  by (simp add: cursors_ok_def init_def zero_ring_def RING_CAP_def)

lemma cursors_ok_producer: "cursors_ok s \<Longrightarrow> cursors_ok (producer_step s)"
  by (cases "p_pc s") (auto simp: cursors_ok_def producer_step_def advance_lt split: sum.splits)

lemma cursors_ok_consumer: "cursors_ok s \<Longrightarrow> cursors_ok (consumer_step s)"
  by (cases "c_pc s") (auto simp: cursors_ok_def consumer_step_def advance_lt split: sum.splits)

lemma cursors_ok_step: "cursors_ok s \<Longrightarrow> cursors_ok (step a s)"
  by (cases a) (auto simp: step_def cursors_ok_producer cursors_ok_consumer, simp add: cursors_ok_def)

lemma cursors_ok_exec: "cursors_ok s \<Longrightarrow> cursors_ok (exec sched s)"
  by (induction sched arbitrary: s) (simp_all add: cursors_ok_step)

text \<open>
  Claim C5. From the zeroed ring, in every state a run can reach (any mode, any schedule,
  any record count), \<open>head\<close> and \<open>tail\<close> lie in \<open>[0, RING_CAP)\<close> with \<open>RING_CAP = 1024\<close>:
  the only assignments are \<^verbatim>\<open>(x + 1) % RING_CAP\<close>.
\<close>

theorem cursors_in_range:
  "unat (head (ring (exec sched (init u n)))) < RING_CAP
   \<and> unat (tail (ring (exec sched (init u n)))) < RING_CAP"
  using cursors_ok_exec [OF cursors_ok_init, of sched u n] by (simp add: cursors_ok_def)


lemma consumer_frame:
  "head (ring (consumer_step s)) = head (ring s) \<and> buf (ring (consumer_step s)) = buf (ring s)"
  by (cases "c_pc s") (auto simp: consumer_step_def split: sum.splits)



section \<open>The invariants hold along every schedule\<close>

lemma unat_advance: "unat (advance x) = (unat x + 1) mod RING_CAP"
proof -
  have "unat (advance x) = (unat x + 1) mod 2 ^ 32 mod 1024"
    by (simp add: advance_def RING_CAP_def unat_mod unat_word_ariths)
  also have "\<dots> = (unat x + 1) mod 1024"
    by (rule mod_mod_cancel) simp
  finally show ?thesis by (simp add: RING_CAP_def)
qed

lemma slot_distinct:
  assumes "k < p" "p < k + RING_CAP"
  shows "k mod RING_CAP \<noteq> p mod RING_CAP"
proof
  assume "k mod RING_CAP = p mod RING_CAP"
  then have "RING_CAP dvd p - k"
    using assms(1) by (metis mod_eq_dvd_iff_nat less_imp_le_nat)
  moreover have "0 < p - k" "p - k < RING_CAP" using assms by simp_all
  ultimately show False using nat_dvd_not_less by blast
qed

lemma record_of_tx_id:
  assumes "record_of k m" "int k < INT_MAX"
  shows "uint (tx_id m) = int k + 1"
proof -
  obtain now where "make_msg (int k) now = Inr m"
    using assms(1) by (auto simp: record_of_def)
  then have "tx_id m = word_of_int (int k + 1)"
    using assms(2) by (auto simp: make_msg_ok)
  then show ?thesis using assms(2) uint_tx [of "int k"] by simp
qed

lemma record_of_make:
  "0 \<le> i \<Longrightarrow> i < INT_MAX \<Longrightarrow> \<exists>m. make_msg i now = Inr m \<and> record_of (nat i) m"
  by (auto simp: make_msg_ok record_of_def)

lemma calloc_seen_nth: "k \<le> nat n \<Longrightarrow> calloc_seen n ! k = 0"
  unfolding calloc_seen_def by (rule nth_replicate) simp

lemma inv_init:
  assumes "0 < n" "n \<le> INT_MAX"
  shows "inv (init u n)"
proof -
  have "inv_ctr (init u n)" using assms by (simp add: inv_ctr_def init_def)
  moreover have "inv_sem (init u n)" by (simp add: inv_sem_def init_def)
  moreover have "inv_ring (init u n)"
    by (simp add: inv_ring_def init_def zero_ring_def RING_CAP_def)
  moreover have "inv_seen (init u n)"
    by (simp add: inv_seen_def init_def calloc_seen_nth) (simp add: calloc_seen_def)
  moreover have "inv_fault (init u n)" by (simp add: inv_fault_def init_def)
  ultimately show ?thesis by (simp add: inv_def)
qed

lemma producer_build:
  assumes "inv_ctr s" "p_pc s = P_build"
  shows "\<exists>m. make_msg (p_i s) (clock s) = Inr m \<and> record_of (nat (p_i s)) m
             \<and> t_send_us m = word_of_int (clock s)
             \<and> producer_step s = s\<lparr>p_msg := m, p_pc := P_write\<rparr>"
proof -
  have i: "0 \<le> p_i s" "p_i s < INT_MAX" using assms by (auto simp: inv_ctr_def)
  obtain m where m: "make_msg (p_i s) (clock s) = Inr m" and r: "record_of (nat (p_i s)) m"
    using record_of_make [OF i] by blast
  have "t_send_us m = word_of_int (clock s)" using m i by (auto simp: make_msg_ok)
  moreover have "producer_step s = s\<lparr>p_msg := m, p_pc := P_write\<rparr>"
    using assms(2) m by (simp add: producer_step_def)
  ultimately show ?thesis using m r by blast
qed

lemma producer_t1:
  assumes "inv_ctr s" "p_pc s = P_t1"
  shows "producer_step s = s\<lparr>p_i := p_i s + 1, p_pc := P_loop\<rparr>"
proof -
  have "int_add (p_i s) 1 = Inr (p_i s + 1)"
    using assms by (auto simp: inv_ctr_def int_add_def INT_MIN_def)
  then show ?thesis using assms(2) by (simp add: producer_step_def)
qed

lemma producer_write:
  assumes "inv_ring s" "p_pc s = P_write"
  shows "producer_step s =
           s\<lparr>ring := (ring s)\<lparr>buf := (buf (ring s))[unat (head (ring s)) := p_msg s]\<rparr>, p_pc := P_head\<rparr>"
proof -
  have "unat (head (ring s)) < length (buf (ring s))"
    using assms(1) by (simp add: inv_ring_def RING_CAP_def)
  then show ?thesis using assms(2) by (simp add: producer_step_def)
qed

lemma inv_ctr_producer:
  assumes "inv_ctr s" "inv_ring s"
  shows "inv_ctr (producer_step s)"
proof (cases "p_pc s")
  case P_build
  then show ?thesis using producer_build [OF assms(1) P_build] assms(1)
    by (auto simp: inv_ctr_def)
next
  case P_write
  then show ?thesis using assms by (simp add: producer_write inv_ctr_def)
next
  case P_t1
  then show ?thesis using assms by (simp add: producer_t1 inv_ctr_def)
qed (use assms(1) in \<open>auto simp: inv_ctr_def producer_step_def\<close>)

lemma inv_sem_producer:
  assumes "inv_ctr s" "inv_ring s" "inv_sem s"
  shows "inv_sem (producer_step s)"
proof (cases "p_pc s")
  case P_build
  then show ?thesis using producer_build [OF assms(1) P_build] assms(3)
    by (auto simp: inv_sem_def)
next
  case P_write
  then show ?thesis using assms by (simp add: producer_write inv_sem_def)
next
  case P_t1
  have "nat (p_i s + 1) = nat (p_i s) + 1" using assms(1) by (simp add: inv_ctr_def nat_add_distrib)
  then show ?thesis using P_t1 assms by (simp add: producer_t1 inv_sem_def)
qed (use assms(3) in \<open>auto simp: inv_sem_def producer_step_def\<close>)

lemma inv_seen_producer:
  assumes "inv_ctr s" "inv_ring s" "inv_seen s"
  shows "inv_seen (producer_step s)"
proof (cases "p_pc s")
  case P_build
  then show ?thesis using producer_build [OF assms(1) P_build] assms(3)
    by (auto simp: inv_seen_def)
next
  case P_write
  then show ?thesis using assms by (simp add: producer_write inv_seen_def)
next
  case P_t1
  then show ?thesis using assms by (simp add: producer_t1 inv_seen_def)
qed (use assms(3) in \<open>auto simp: inv_seen_def producer_step_def\<close>)

lemma inv_fault_producer:
  assumes "inv_ctr s" "inv_ring s" "inv_fault s"
  shows "inv_fault (producer_step s)"
proof (cases "p_pc s")
  case P_build
  then show ?thesis using producer_build [OF assms(1) P_build] assms(3)
    by (auto simp: inv_fault_def)
next
  case P_write
  then show ?thesis using assms by (simp add: producer_write inv_fault_def)
next
  case P_t1
  then show ?thesis using assms by (simp add: producer_t1 inv_fault_def)
qed (use assms(3) in \<open>auto simp: inv_fault_def producer_step_def\<close>)

lemma c_posted_le_taken: "c_posted pc \<le> c_taken pc"
  by (cases pc) simp_all

lemma p_posted_le_wrote: "p_posted pc \<le> p_wrote pc"
  by (cases pc) simp_all

lemma inv_ring_producer_write:
  assumes "inv_sem s" "inv_ring s" "p_pc s = P_write"
  shows "inv_ring (producer_step s)"
proof -
  let ?p = "nat (p_i s)"
  let ?b = "buf (ring s)"
  let ?s' = "s\<lparr>ring := (ring s)\<lparr>buf := ?b[unat (head (ring s)) := p_msg s]\<rparr>, p_pc := P_head\<rparr>"
  have st: "producer_step s = ?s'" using assms(2,3) by (rule producer_write)
  have len: "length ?b = RING_CAP" using assms(2) by (simp add: inv_ring_def)
  have h: "unat (head (ring s)) = ?p mod RING_CAP"
    using assms(2,3) by (simp add: inv_ring_def)
  have hl: "?p mod RING_CAP < length ?b" using len by (simp add: RING_CAP_def)
  have m: "record_of ?p (p_msg s)" using assms(2,3) by (simp add: inv_ring_def)
  have old: "record_of k (?b ! (k mod RING_CAP))"
    if "nat (c_i s) + c_taken (c_pc s) \<le> k" "k < ?p" for k
    using assms(2,3) that by (simp add: inv_ring_def)
  have room: "?p < k + RING_CAP" if "nat (c_i s) + c_taken (c_pc s) \<le> k" for k
  proof -
    have "sem_empty s + ?p + 1 = RING_CAP + nat (c_i s) + c_posted (c_pc s)"
      using assms(1,3) by (simp add: inv_sem_def)
    then show ?thesis using that c_posted_le_taken [of "c_pc s"] by linarith
  qed
  have new: "record_of k (?b[?p mod RING_CAP := p_msg s] ! (k mod RING_CAP))"
    if "nat (c_i s) + c_taken (c_pc s) \<le> k" "k < ?p + 1" for k
  proof (cases "k = ?p")
    case True
    then show ?thesis using m hl by simp
  next
    case False
    then have lt: "k < ?p" using that(2) by simp
    have "k mod RING_CAP \<noteq> ?p mod RING_CAP"
      using lt room [OF that(1)] by (rule slot_distinct)
    then show ?thesis using old [OF that(1) lt] by simp
  qed
  have "inv_ring ?s'"
    unfolding inv_ring_def using assms(2,3) len new
    by (simp add: h inv_ring_def)
  then show ?thesis by (simp only: st)
qed

lemma inv_ring_producer:
  assumes "inv_ctr s" "inv_sem s" "inv_ring s"
  shows "inv_ring (producer_step s)"
proof (cases "p_pc s")
  case P_build
  then show ?thesis using producer_build [OF assms(1) P_build] assms(3)
    by (auto simp: inv_ring_def)
next
  case P_write
  then show ?thesis using assms by (simp add: inv_ring_producer_write)
next
  case P_head
  then show ?thesis using assms(3)
    by (simp add: inv_ring_def producer_step_def unat_advance mod_Suc_eq)
next
  case P_t1
  have "nat (p_i s + 1) = nat (p_i s) + 1" using assms(1) by (simp add: inv_ctr_def nat_add_distrib)
  then show ?thesis using P_t1 assms by (simp add: producer_t1 inv_ring_def)
qed (use assms(3) in \<open>auto simp: inv_ring_def producer_step_def\<close>)

lemma inv_producer: "inv s \<Longrightarrow> inv (producer_step s)"
  unfolding inv_def
  using inv_ctr_producer inv_sem_producer inv_ring_producer inv_seen_producer
    inv_fault_producer
  by blast

lemma consumer_read:
  assumes "inv_ring s" "c_pc s = C_read"
  shows "consumer_step s = s\<lparr>c_msg := buf (ring s) ! unat (tail (ring s)), c_pc := C_tail\<rparr>"
proof -
  have "unat (tail (ring s)) < length (buf (ring s))"
    using assms(1) by (simp add: inv_ring_def RING_CAP_def)
  then show ?thesis using assms(2) by (simp add: consumer_step_def)
qed

lemma consumer_observe:
  assumes "inv_ctr s" "inv_ring s" "inv_seen s" "c_pc s = C_observe"
  shows "consumer_step s =
           s\<lparr>seen := (seen s)[nat (c_i s) + 1 := 1], c_i := c_i s + 1, c_pc := C_loop\<rparr>"
proof -
  let ?t = "tx_id (c_msg s)"
  have c: "0 < count s" "count s \<le> INT_MAX" "0 \<le> c_i s" "c_i s < count s"
    using assms(1,4) by (auto simp: inv_ctr_def)
  have "record_of (nat (c_i s)) (c_msg s)" using assms(2,4) by (simp add: inv_ring_def)
  then have u: "uint ?t = c_i s + 1"
    using record_of_tx_id [of "nat (c_i s)" "c_msg s"] c by simp
  have "int (unat ?t) = uint ?t" by simp
  then have un: "unat ?t = nat (c_i s) + 1" using u c(3) by linarith
  have len: "length (seen s) = nat (count s) + 1" using assms(3) by (simp add: inv_seen_def)
  have z: "seen s ! (nat (c_i s) + 1) = 0"
    using assms(3) c by (simp add: inv_seen_def)
  have "observe (count s) (seen s) ?t = Inr ((seen s)[unat ?t := seen s ! unat ?t + 1])"
    using c u len by (intro observe_in_range) simp_all
  then have o: "observe (count s) (seen s) ?t = Inr ((seen s)[nat (c_i s) + 1 := 1])"
    using z unfolding un by simp
  have a: "int_add (c_i s) 1 = Inr (c_i s + 1)"
    using c by (simp add: int_add_def INT_MIN_def)
  show ?thesis using assms(4) by (simp add: consumer_step_def o a)
qed

lemma audit_all_once:
  assumes "0 < n" "n \<le> INT_MAX" "length cs = nat n + 1"
    and "\<forall>k. 1 \<le> k \<and> k \<le> nat n \<longrightarrow> cs ! k = 1"
  shows "audit n cs = (if n = INT_MAX then Inl Signed_overflow else Inr (0, 0))"
proof -
  have d: "(\<Sum>k = nat 1..nat n. max (uint (cs ! k) - 1) 0) = 0"
    using assms(4) by (intro sum.neutral) simp
  have m: "(\<Sum>k = nat 1..nat n. if cs ! k = 0 then 1 else 0) = (0::int)"
    using assms(4) by (intro sum.neutral) simp
  have "audit_loop n cs 1 (0, 0) =
           (if n = INT_MAX then Inl Signed_overflow
            else Inr (0 + (\<Sum>k = nat 1..nat n. if cs ! k = 0 then 1 else 0),
                      0 + (\<Sum>k = nat 1..nat n. max (uint (cs ! k) - 1) 0)))"
  proof (rule audit_loop_ok [OF assms(2,3)])
    show "(1::int) \<le> 1" by simp
    show "1 \<le> n \<or> 1 = n + 1 \<and> n < INT_MAX" using assms(1) by simp
    show "(0::int) \<le> 0" by simp
    show "0 + (n + 1 - 1) \<le> INT_MAX" using assms(2) by simp
    show "(0::int) \<le> 0" by simp
    show "0 + (\<Sum>k = nat 1..nat n. max (uint (cs ! k) - 1) 0) \<le> INT_MAX"
      unfolding d by (simp add: INT_MAX_def)
  qed
  then show ?thesis unfolding audit_def d m by simp
qed

lemma consumer_audit_step:
  assumes "inv_ctr s" "inv_seen s" "c_pc s = C_audit"
  shows "consumer_step s =
           (if count s = INT_MAX then s\<lparr>fault := Some Signed_overflow\<rparr>
            else s\<lparr>report := Some (0, 0), c_pc := C_done\<rparr>)"
proof -
  have c: "0 < count s" "count s \<le> INT_MAX" "c_i s = count s"
    using assms(1,3) by (auto simp: inv_ctr_def)
  have len: "length (seen s) = nat (count s) + 1" using assms(2) by (simp add: inv_seen_def)
  have all: "\<forall>k. 1 \<le> k \<and> k \<le> nat (count s) \<longrightarrow> seen s ! k = 1"
    using assms(2) c(3) by (simp add: inv_seen_def)
  have "audit (count s) (seen s) = (if count s = INT_MAX then Inl Signed_overflow else Inr (0, 0))"
    using c(1,2) len all by (rule audit_all_once)
  then show ?thesis using assms(3) by (simp add: consumer_step_def)
qed

lemma inv_ctr_consumer:
  assumes "inv_ctr s" "inv_ring s" "inv_seen s"
  shows "inv_ctr (consumer_step s)"
proof (cases "c_pc s")
  case C_read
  then show ?thesis using assms by (simp add: consumer_read inv_ctr_def)
next
  case C_observe
  then show ?thesis using assms by (simp add: consumer_observe inv_ctr_def)
next
  case C_audit
  then show ?thesis using assms by (auto simp: consumer_audit_step inv_ctr_def)
qed (use assms(1) in \<open>auto simp: inv_ctr_def consumer_step_def\<close>)

lemma inv_sem_consumer:
  assumes "inv_ctr s" "inv_ring s" "inv_seen s" "inv_sem s"
  shows "inv_sem (consumer_step s)"
proof (cases "c_pc s")
  case C_read
  then show ?thesis using assms by (simp add: consumer_read inv_sem_def)
next
  case C_observe
  have "nat (c_i s + 1) = nat (c_i s) + 1" using assms(1) by (simp add: inv_ctr_def nat_add_distrib)
  then show ?thesis using C_observe assms by (simp add: consumer_observe inv_sem_def)
next
  case C_audit
  then show ?thesis using assms by (auto simp: consumer_audit_step inv_sem_def)
qed (use assms(4) in \<open>auto simp: inv_sem_def consumer_step_def\<close>)

lemma inv_ring_consumer_read:
  assumes "inv_sem s" "inv_ring s" "c_pc s = C_read"
  shows "inv_ring (consumer_step s)"
proof -
  let ?c = "nat (c_i s)"
  have st: "consumer_step s = s\<lparr>c_msg := buf (ring s) ! unat (tail (ring s)), c_pc := C_tail\<rparr>"
    using assms(2,3) by (rule consumer_read)
  have t: "unat (tail (ring s)) = ?c mod RING_CAP"
    using assms(2,3) by (simp add: inv_ring_def)
  have "sem_full s + ?c + 1 = nat (p_i s) + p_posted (p_pc s)"
    using assms(1,3) by (simp add: inv_sem_def)
  then have "?c < nat (p_i s) + p_wrote (p_pc s)"
    using p_posted_le_wrote [of "p_pc s"] by linarith
  then have r: "record_of ?c (buf (ring s) ! (?c mod RING_CAP))"
    using assms(2,3) by (simp add: inv_ring_def)
  show ?thesis
    unfolding st using assms(2,3) r by (simp add: inv_ring_def t)
qed

lemma inv_ring_consumer:
  assumes "inv_ctr s" "inv_sem s" "inv_ring s" "inv_seen s"
  shows "inv_ring (consumer_step s)"
proof (cases "c_pc s")
  case C_read
  then show ?thesis using assms by (simp add: inv_ring_consumer_read)
next
  case C_tail
  then show ?thesis using assms(3)
    by (simp add: inv_ring_def consumer_step_def unat_advance mod_Suc_eq)
next
  case C_observe
  have "nat (c_i s + 1) = nat (c_i s) + 1" using assms(1) by (simp add: inv_ctr_def nat_add_distrib)
  then show ?thesis using C_observe assms by (simp add: consumer_observe inv_ring_def)
next
  case C_audit
  then show ?thesis using assms by (auto simp: consumer_audit_step inv_ring_def)
qed (use assms(3) in \<open>auto simp: inv_ring_def consumer_step_def\<close>)

lemma inv_seen_consumer:
  assumes "inv_ctr s" "inv_ring s" "inv_seen s"
  shows "inv_seen (consumer_step s)"
proof (cases "c_pc s")
  case C_read
  then show ?thesis using assms by (simp add: consumer_read inv_seen_def)
next
  case C_observe
  have "0 \<le> c_i s" "c_i s < count s"
    using assms(1) C_observe by (simp_all add: inv_ctr_def)
  then have n: "nat (c_i s + 1) = nat (c_i s) + 1" "nat (c_i s) + 1 \<le> nat (count s)"
    by linarith+
  have len: "length (seen s) = nat (count s) + 1" using assms(3) by (simp add: inv_seen_def)
  have "(seen s)[nat (c_i s) + 1 := 1] ! k = (if k \<le> nat (c_i s) + 1 then 1 else 0)"
    if "1 \<le> k" "k \<le> nat (count s)" for k
  proof (cases "k = nat (c_i s) + 1")
    case True
    have "nat (c_i s) + 1 < length (seen s)" using len n(2) by linarith
    then show ?thesis unfolding True by simp
  next
    case False
    then show ?thesis using assms(3) that by (simp add: inv_seen_def)
  qed
  then show ?thesis using C_observe assms n by (simp add: consumer_observe inv_seen_def)
next
  case C_audit
  then show ?thesis using assms by (auto simp: consumer_audit_step inv_seen_def)
qed (use assms(3) in \<open>auto simp: inv_seen_def consumer_step_def\<close>)

lemma inv_fault_consumer:
  assumes "inv_ctr s" "inv_ring s" "inv_seen s" "fault s = None"
  shows "inv_fault (consumer_step s)"
proof (cases "c_pc s")
  case C_read
  then show ?thesis using assms by (simp add: consumer_read inv_fault_def)
next
  case C_observe
  then show ?thesis using assms by (simp add: consumer_observe inv_fault_def)
next
  case C_audit
  then show ?thesis using assms by (auto simp: consumer_audit_step inv_fault_def)
qed (use assms(4) in \<open>auto simp: inv_fault_def consumer_step_def\<close>)

lemma inv_consumer: "inv s \<Longrightarrow> fault s = None \<Longrightarrow> inv (consumer_step s)"
  unfolding inv_def
  using inv_ctr_consumer inv_sem_consumer inv_ring_consumer inv_seen_consumer
    inv_fault_consumer
  by blast

lemma inv_clock: "inv s \<Longrightarrow> inv (s\<lparr>clock := t\<rparr>)"
  by (simp add: inv_def inv_ctr_def inv_sem_def inv_ring_def inv_seen_def inv_fault_def)

lemma inv_step: "inv s \<Longrightarrow> inv (step a s)"
  by (cases a) (simp_all add: step_def inv_producer inv_consumer inv_clock)

lemma inv_exec: "inv s \<Longrightarrow> inv (exec sched s)"
  by (induction sched arbitrary: s) (simp_all add: inv_step)

lemma inv_run: "0 < n \<Longrightarrow> n \<le> INT_MAX \<Longrightarrow> inv (exec sched (init u n))"
  by (intro inv_exec inv_init)

lemma producer_step_frame:
  "count (producer_step s) = count s \<and> g_unsafe (producer_step s) = g_unsafe s
   \<and> c_pc (producer_step s) = c_pc s \<and> c_i (producer_step s) = c_i s
   \<and> report (producer_step s) = report s \<and> clock (producer_step s) = clock s"
  by (cases "p_pc s") (auto simp: producer_step_def split: sum.splits)

lemma consumer_step_frame:
  "count (consumer_step s) = count s \<and> g_unsafe (consumer_step s) = g_unsafe s
   \<and> p_pc (consumer_step s) = p_pc s \<and> p_i (consumer_step s) = p_i s
   \<and> p_msg (consumer_step s) = p_msg s \<and> clock (consumer_step s) = clock s"
  by (cases "c_pc s") (auto simp: consumer_step_def split: sum.splits)

lemma step_config: "count (step a s) = count s \<and> g_unsafe (step a s) = g_unsafe s"
  by (cases a) (simp_all add: step_def producer_step_frame consumer_step_frame)

lemma exec_config: "count (exec sched s) = count s \<and> g_unsafe (exec sched s) = g_unsafe s"
  by (induction sched arbitrary: s) (simp_all add: step_config)

section \<open>The records a run enqueues\<close>

lemma record_of_fields:
  assumes "record_of k m" "int k < INT_MAX"
  shows "uint (tx_id m) = int k + 1"
    and "uint (type m) = (uint (tx_id m) - 1) mod 5"
    and "uint (amount_pence m) = (1000 + int k mod 500) * 100"
proof -
  obtain now where mk: "make_msg (int k) now = Inr m"
    using assms(1) by (auto simp: record_of_def)
  have h: "0 < int k + 1" "int k + 1 \<le> INT_MAX" "0 \<le> int k" "int k < int k + 1"
    using assms(2) by simp_all
  obtain m' where m': "make_msg (int k) now = Inr m'"
    and f: "uint (tx_id m') = int k + 1" "uint (type m') = (uint (tx_id m') - 1) mod 5"
      "uint (amount_pence m') = (1000 + int k mod 500) * 100"
    using make_msg_fields [OF h, of now] by blast
  have "m' = m" using mk m' by simp
  then show "uint (tx_id m) = int k + 1"
    and "uint (type m) = (uint (tx_id m) - 1) mod 5"
    and "uint (amount_pence m) = (1000 + int k mod 500) * 100"
    using f by simp_all
qed

lemma step_writes_done:
  assumes "inv s"
  shows "writes_done (step a s) = writes_done s + length (enqueues a s)"
proof (cases "a = Producer \<and> fault s = None")
  case False
  then have e: "enqueues a s = []" by (auto simp: enqueues_def)
  have "writes_done (step a s) = writes_done s"
  proof (cases a)
    case Producer
    then show ?thesis using False by (simp add: step_def)
  next
    case Consumer
    then show ?thesis by (simp add: step_def writes_done_def consumer_step_frame)
  next
    case (Clock t)
    then show ?thesis by (simp add: step_def writes_done_def)
  qed
  then show ?thesis using e by simp
next
  case True
  have ctr: "inv_ctr s" and rg: "inv_ring s" using assms by (simp_all add: inv_def)
  show ?thesis
  proof (cases "p_pc s")
    case P_build
    then show ?thesis using producer_build [OF ctr P_build] True
      by (auto simp: step_def writes_done_def enqueues_def)
  next
    case P_write
    have "unat (head (ring s)) < length (buf (ring s))"
      using rg by (simp add: inv_ring_def RING_CAP_def)
    then show ?thesis using P_write True rg
      by (simp add: step_def writes_done_def enqueues_def producer_write)
  next
    case P_t1
    have "nat (p_i s + 1) = nat (p_i s) + 1"
      using ctr by (simp add: inv_ctr_def nat_add_distrib)
    then show ?thesis using P_t1 ctr True
      by (simp add: step_def writes_done_def enqueues_def producer_t1)
  qed (use True in \<open>auto simp: step_def writes_done_def enqueues_def producer_step_def\<close>)
qed

lemma emitted_length:
  "inv s \<Longrightarrow> writes_done (exec sched s) = writes_done s + length (emitted sched s)"
proof (induction sched arbitrary: s)
  case Nil then show ?case by simp
next
  case (Cons a sched)
  have "inv (step a s)" using Cons.prems by (rule inv_step)
  from Cons.IH [OF this] step_writes_done [OF Cons.prems, of a]
  show ?case by simp
qed

lemma emitted_records:
  "inv s \<Longrightarrow> j < length (emitted sched s) \<Longrightarrow>
   record_of (writes_done s + j) (emitted sched s ! j)"
proof (induction sched arbitrary: s j)
  case Nil then show ?case by simp
next
  case (Cons a sched)
  have i': "inv (step a s)" using Cons.prems(1) by (rule inv_step)
  have w: "writes_done (step a s) = writes_done s + length (enqueues a s)"
    using Cons.prems(1) by (rule step_writes_done)
  show ?case
  proof (cases "enqueues a s = []")
    case True
    then have "j < length (emitted sched (step a s))" using Cons.prems(2) by simp
    from Cons.IH [OF i' this] show ?thesis using True w by simp
  next
    case False
    then have e: "enqueues a s = [p_msg s]" and pc: "p_pc s = P_write"
      by (auto simp: enqueues_def split: if_splits)
    have r: "record_of (nat (p_i s)) (p_msg s)"
      using Cons.prems(1) pc by (simp add: inv_def inv_ring_def)
    have wd: "writes_done s = nat (p_i s)" using pc by (simp add: writes_done_def)
    show ?thesis
    proof (cases j)
      case 0
      then show ?thesis using e r wd by simp
    next
      case (Suc j')
      then have "j' < length (emitted sched (step a s))" using Cons.prems(2) e by simp
      from Cons.IH [OF i' this] show ?thesis using e w Suc by simp
    qed
  qed
qed

lemma writes_done_bound:
  assumes "inv s"
  shows "writes_done s \<le> nat (count s)" "p_pc s = P_done \<Longrightarrow> writes_done s = nat (count s)"
proof -
  have ctr: "inv_ctr s" using assms by (simp add: inv_def)
  show "writes_done s \<le> nat (count s)"
  proof (cases "p_wrote (p_pc s) = 0")
    case True
    have "p_i s \<le> count s" using ctr by (simp add: inv_ctr_def)
    then show ?thesis using True by (simp add: writes_done_def)
  next
    case False
    then have w: "p_wrote (p_pc s) = 1" by (cases "p_pc s") simp_all
    then have "p_pc s \<noteq> P_loop \<and> p_pc s \<noteq> P_done" by (cases "p_pc s") simp_all
    then have "p_i s < count s" "0 \<le> p_i s" using ctr by (simp_all add: inv_ctr_def)
    then have "nat (p_i s) + 1 \<le> nat (count s)" by linarith
    then show ?thesis using w by (simp add: writes_done_def)
  qed
  show "writes_done s = nat (count s)" if "p_pc s = P_done"
    using that ctr by (simp add: writes_done_def inv_ctr_def)
qed

lemma enqueues_stored:
  "\<forall>a s m. enqueues a s = [m] \<longrightarrow> buf (ring (step a s)) ! unat (head (ring s)) = m"
  by (auto simp: enqueues_def step_def producer_step_def split: if_splits)

lemma enqueues_complete:
  "\<forall>a s. buf (ring (step a s)) \<noteq> buf (ring s) \<longrightarrow> enqueues a s = [p_msg s]"
proof (intro allI impI)
  fix a s
  assume c: "buf (ring (step a s)) \<noteq> buf (ring s)"
  have f: "fault s = None" using c by (cases "fault s") (simp_all add: step_def)
  have a: "a = Producer"
    using c f by (cases a) (simp_all add: step_def consumer_frame)
  have p: "p_pc s = P_write \<and> unat (head (ring s)) < length (buf (ring s))"
    using c f a by (cases "p_pc s") (auto simp: step_def producer_step_def split: sum.splits if_splits)
  show "enqueues a s = [p_msg s]" using a f p by (simp add: enqueues_def)
qed

text \<open>
  Claim C2. For a record count \<open>n > 0\<close> (a C \<^verbatim>\<open>int\<close>), in every run, under every schedule
  and in either mode: the producer enqueues at most \<open>n\<close> records, exactly \<open>n\<close> once its
  loop has ended; the \<open>i\<close>-th record it enqueues (counted from 0, in the order of the
  writes) has id \<open>i + 1\<close>, type \<open>(id - 1) mod 5\<close> and amount
  \<open>(1000 + (i mod 500)) * 100\<close>, and is the record the loop body builds for the index
  \<open>i\<close>; no id occurs twice among the records enqueued. An enqueued record is stored in
  the slot at \<open>head\<close>, and no other step changes a slot. The fields are a function of the
  index alone, whatever the clock reads.
\<close>

theorem producer_record_fields:
  assumes "0 < n" "n \<le> INT_MAX"
  shows "length (emitted sched (init u n)) \<le> nat n
       \<and> (p_pc (exec sched (init u n)) = P_done \<longrightarrow> length (emitted sched (init u n)) = nat n)
       \<and> (\<forall>i < length (emitted sched (init u n)).
            uint (tx_id (emitted sched (init u n) ! i)) = int i + 1
          \<and> uint (type (emitted sched (init u n) ! i))
              = (uint (tx_id (emitted sched (init u n) ! i)) - 1) mod 5
          \<and> uint (amount_pence (emitted sched (init u n) ! i)) = (1000 + int i mod 500) * 100
          \<and> (\<exists>t. make_msg (int i) t = Inr (emitted sched (init u n) ! i)))
       \<and> distinct (map tx_id (emitted sched (init u n)))
       \<and> (\<forall>a s m. enqueues a s = [m] \<longrightarrow>
             buf (ring (step a s)) ! unat (head (ring s)) = m)
       \<and> (\<forall>a s. buf (ring (step a s)) \<noteq> buf (ring s) \<longrightarrow> enqueues a s = [p_msg s])
       \<and> (\<forall>i now. 0 \<le> i \<and> i < n \<longrightarrow>
            (\<exists>m. make_msg i now = Inr m
               \<and> uint (tx_id m) = i + 1
               \<and> uint (type m) = (uint (tx_id m) - 1) mod 5
               \<and> uint (amount_pence m) = (1000 + i mod 500) * 100))"
proof -
  let ?e = "emitted sched (init u n)"
  have i0: "inv (init u n)" using assms by (rule inv_init)
  have w0: "writes_done (init u n) = 0" by (simp add: writes_done_def init_def)
  have ie: "inv (exec sched (init u n))" using i0 by (rule inv_exec)
  have c: "count (exec sched (init u n)) = n" by (simp add: exec_config init_def)
  have len: "writes_done (exec sched (init u n)) = length ?e"
    using emitted_length [OF i0, of sched] w0 by simp
  have 1: "length ?e \<le> nat n"
    using writes_done_bound(1) [OF ie] len c by simp
  have 2: "p_pc (exec sched (init u n)) = P_done \<longrightarrow> length ?e = nat n"
    using writes_done_bound(2) [OF ie] len c by simp
  have rec: "record_of i (?e ! i)" if "i < length ?e" for i
    using emitted_records [OF i0 that] w0 by simp
  have lt: "int i < INT_MAX" if "i < length ?e" for i
    using that 1 assms(2) by linarith
  have 3: "\<forall>i < length ?e.
            uint (tx_id (?e ! i)) = int i + 1
          \<and> uint (type (?e ! i)) = (uint (tx_id (?e ! i)) - 1) mod 5
          \<and> uint (amount_pence (?e ! i)) = (1000 + int i mod 500) * 100
          \<and> (\<exists>t. make_msg (int i) t = Inr (?e ! i))"
  proof (intro allI impI)
    fix i assume a: "i < length ?e"
    show "uint (tx_id (?e ! i)) = int i + 1
          \<and> uint (type (?e ! i)) = (uint (tx_id (?e ! i)) - 1) mod 5
          \<and> uint (amount_pence (?e ! i)) = (1000 + int i mod 500) * 100
          \<and> (\<exists>t. make_msg (int i) t = Inr (?e ! i))"
      using record_of_fields [OF rec [OF a] lt [OF a]] rec [OF a]
      by (simp add: record_of_def)
  qed
  have 4: "distinct (map tx_id ?e)"
  proof (subst distinct_conv_nth, intro allI impI)
    fix i j
    assume a: "i < length (map tx_id ?e)" "j < length (map tx_id ?e)" "i \<noteq> j"
    then have "uint (map tx_id ?e ! i) = int i + 1" "uint (map tx_id ?e ! j) = int j + 1"
      using 3 by simp_all
    then show "map tx_id ?e ! i \<noteq> map tx_id ?e ! j" using a(3) by auto
  qed
  have 5: "\<forall>i now. 0 \<le> i \<and> i < n \<longrightarrow>
            (\<exists>m. make_msg i now = Inr m
               \<and> uint (tx_id m) = i + 1
               \<and> uint (type m) = (uint (tx_id m) - 1) mod 5
               \<and> uint (amount_pence m) = (1000 + i mod 500) * 100)"
  proof (intro allI impI)
    fix i now :: int assume a: "0 \<le> i \<and> i < n"
    then have h: "0 \<le> i" "i < n" by simp_all
    from make_msg_fields [OF assms h, of now]
    show "\<exists>m. make_msg i now = Inr m
               \<and> uint (tx_id m) = i + 1
               \<and> uint (type m) = (uint (tx_id m) - 1) mod 5
               \<and> uint (amount_pence m) = (1000 + i mod 500) * 100"
      by blast
  qed
  from 1 2 3 4 5 enqueues_stored enqueues_complete show ?thesis by blast
qed

text \<open>The hypotheses of C2 hold at \<open>n = 3\<close> for the schedule that lets the producer run to
  the end of its loop: three records are enqueued, with the ids 1, 2, 3; the third has
  type 2 and amount 100200.\<close>

theorem producer_record_fields_witness:
  "p_pc (exec (replicate 31 Producer) (init False 3)) = P_done
   \<and> map tx_id (emitted (replicate 31 Producer) (init False 3)) = [1, 2, 3]
   \<and> length (emitted (replicate 31 Producer) (init False 3)) = 3
   \<and> uint (tx_id (emitted (replicate 31 Producer) (init False 3) ! 2)) = 3
   \<and> uint (type (emitted (replicate 31 Producer) (init False 3) ! 2)) = 2
   \<and> uint (amount_pence (emitted (replicate 31 Producer) (init False 3) ! 2)) = 100200"
proof -
  let ?e = "emitted (replicate 31 Producer) (init False 3)"
  have h: "(0::int) < 3" "(3::int) \<le> INT_MAX" by (simp_all add: INT_MAX_def)
  have d: "p_pc (exec (replicate 31 Producer) (init False 3)) = P_done" by code_simp
  have ids: "map tx_id ?e = [1, 2, 3]" by code_simp
  note t = producer_record_fields [OF h, of "replicate 31 Producer" False]
  from t d have l: "length ?e = 3" by simp
  then have "(2::nat) < length ?e" by simp
  with t have "uint (tx_id (?e ! 2)) = int 2 + 1
       \<and> uint (type (?e ! 2)) = (uint (tx_id (?e ! 2)) - 1) mod 5
       \<and> uint (amount_pence (?e ! 2)) = (1000 + int 2 mod 500) * 100"
    by blast
  then show ?thesis using d ids l by simp
qed

section \<open>The counting semaphores\<close>

lemma p_posted_le_waited: "p_posted pc \<le> p_waited pc"
  by (cases pc) simp_all

lemma c_posted_le_waited: "c_posted pc \<le> c_waited pc"
  by (cases pc) simp_all

lemma inv_sem_sum:
  assumes "inv_sem s"
  shows "sem_empty s + sem_full s + p_holds s + c_holds s = RING_CAP"
proof -
  have 1: "sem_empty s + nat (p_i s) + p_waited (p_pc s) = RING_CAP + nat (c_i s) + c_posted (c_pc s)"
    and 2: "sem_full s + nat (c_i s) + c_waited (c_pc s) = nat (p_i s) + p_posted (p_pc s)"
    using assms by (simp_all add: inv_sem_def)
  show ?thesis
    unfolding p_holds_def c_holds_def
    using 1 2 p_posted_le_waited [of "p_pc s"] c_posted_le_waited [of "c_pc s"] by linarith
qed





section \<open>The outcome of a run\<close>

lemma not_done_step:
  assumes "inv s" "count s = INT_MAX" "c_pc s \<noteq> C_done"
  shows "c_pc (step a s) \<noteq> C_done"
proof (cases a)
  case Producer
  then show ?thesis using assms(3) by (simp add: step_def producer_step_frame)
next
  case Consumer
  show ?thesis
  proof (cases "c_pc s = C_audit")
    case True
    then have "consumer_step s = s\<lparr>fault := Some Signed_overflow\<rparr>"
      using assms(1,2) by (simp add: inv_def consumer_audit_step)
    then show ?thesis using Consumer assms(3) by (simp add: step_def)
  next
    case False
    then have "c_pc (consumer_step s) \<noteq> C_done"
      using assms(3) by (cases "c_pc s") (auto simp: consumer_step_def split: sum.splits)
    then show ?thesis using Consumer assms(3) by (simp add: step_def)
  qed
next
  case (Clock t)
  then show ?thesis using assms(3) by (simp add: step_def)
qed

lemma not_done_exec:
  "inv s \<Longrightarrow> count s = INT_MAX \<Longrightarrow> c_pc s \<noteq> C_done \<Longrightarrow> c_pc (exec sched s) \<noteq> C_done"
proof (induction sched arbitrary: s)
  case Nil then show ?case by simp
next
  case (Cons a sched)
  have "inv (step a s)" using Cons.prems(1) by (rule inv_step)
  moreover have "count (step a s) = INT_MAX" using Cons.prems(2) by (simp add: step_config)
  moreover have "c_pc (step a s) \<noteq> C_done" using Cons.prems by (rule not_done_step)
  ultimately show ?case using Cons.IH by simp
qed

lemma safe_run_reports_clean:
  assumes "0 < n" "n < INT_MAX" "finished (exec sched (init u n))"
  shows "report (exec sched (init u n)) = Some (0, 0) \<and> fault (exec sched (init u n)) = None"
proof -
  let ?s = "exec sched (init u n)"
  have i: "inv ?s" using assms(1,2) by (intro inv_run) simp_all
  have "count ?s = n" by (simp add: exec_config init_def)
  then have "fault ?s = None" using i assms(2) by (auto simp: inv_def inv_fault_def)
  moreover have "report ?s = Some (0, 0)"
    using i assms(3) by (simp add: inv_def inv_seen_def finished_def)
  ultimately show ?thesis by simp
qed

lemma mutual_exclusion:
  assumes "0 < n" "n \<le> INT_MAX"
  shows "\<not> (p_locked (p_pc (exec sched (init False n))) = 1
            \<and> c_locked (c_pc (exec sched (init False n))) = 1)"
proof -
  let ?s = "exec sched (init False n)"
  have "inv_sem ?s" using inv_run [OF assms] by (simp add: inv_def)
  moreover have "\<not> g_unsafe ?s" by (simp add: exec_config init_def)
  ultimately have "sem_mutex ?s + p_locked (p_pc ?s) + c_locked (c_pc ?s) = 1"
    by (simp add: inv_sem_def)
  then show ?thesis by linarith
qed

subsection \<open>Every run can be completed\<close>

lemma producer_advances:
  assumes "inv s" "p_pc s \<noteq> P_done" "\<not> p_blocked s"
  shows "progress (producer_step s) = progress s + 1"
proof (cases "p_pc s")
  case P_loop
  then show ?thesis using assms(1)
    by (auto simp: progress_def producer_step_def inv_def inv_ctr_def)
next
  case P_build
  then show ?thesis using producer_build [of s] assms(1)
    by (auto simp: progress_def inv_def)
next
  case P_write
  then show ?thesis using assms(1) by (simp add: progress_def inv_def producer_write)
next
  case P_t1
  have "nat (p_i s + 1) = nat (p_i s) + 1"
    using assms(1) by (simp add: inv_def inv_ctr_def nat_add_distrib)
  then show ?thesis using P_t1 assms(1) by (simp add: progress_def inv_def producer_t1)
next
  case P_done
  then show ?thesis using assms(2) by simp
qed (use assms(3) in \<open>auto simp: progress_def producer_step_def p_blocked_def\<close>)

lemma consumer_advances:
  assumes "inv s" "c_pc s \<noteq> C_done" "\<not> c_blocked s"
  shows "progress (consumer_step s) = progress s + 1
         \<or> fault (consumer_step s) = Some Signed_overflow"
proof (cases "c_pc s")
  case C_loop
  then show ?thesis using assms(1)
    by (auto simp: progress_def consumer_step_def inv_def inv_ctr_def)
next
  case C_read
  then show ?thesis using assms(1) by (simp add: progress_def inv_def consumer_read)
next
  case C_observe
  have "nat (c_i s + 1) = nat (c_i s) + 1"
    using assms(1) by (simp add: inv_def inv_ctr_def nat_add_distrib)
  then show ?thesis using C_observe assms(1) by (simp add: progress_def inv_def consumer_observe)
next
  case C_audit
  then show ?thesis using assms(1) by (auto simp: progress_def inv_def consumer_audit_step)
next
  case C_done
  then show ?thesis using assms(2) by simp
qed (use assms(3) in \<open>auto simp: progress_def consumer_step_def c_blocked_def\<close>)

lemma inv_ctr_bounds:
  assumes "inv_ctr s"
  shows "0 \<le> p_i s" "p_i s \<le> count s" "0 \<le> c_i s" "c_i s \<le> count s"
  using assms by (simp_all add: inv_ctr_def)

lemma no_deadlock:
  assumes "inv s" "\<not> finished s"
  shows "(p_pc s \<noteq> P_done \<and> \<not> p_blocked s) \<or> (c_pc s \<noteq> C_done \<and> \<not> c_blocked s)"
proof -
  have ctr: "inv_ctr s" and sem: "inv_sem s" using assms(1) by (simp_all add: inv_def)
  have e: "sem_empty s + nat (p_i s) + p_waited (p_pc s) = RING_CAP + nat (c_i s) + c_posted (c_pc s)"
    and f: "sem_full s + nat (c_i s) + c_waited (c_pc s) = nat (p_i s) + p_posted (p_pc s)"
    and m: "\<not> g_unsafe s \<longrightarrow> sem_mutex s + p_locked (p_pc s) + c_locked (c_pc s) = 1"
    using sem by (simp_all add: inv_sem_def)
  have pn: "nat (p_i s) \<le> nat (count s)" and cn: "nat (c_i s) \<le> nat (count s)"
    using inv_ctr_bounds [OF ctr] by linarith+
  show ?thesis
  proof (rule ccontr)
    assume "\<not> ?thesis"
    then have P: "p_pc s = P_done \<or> p_blocked s" and C: "c_pc s = C_done \<or> c_blocked s"
      by auto
    from P show False
    proof
      assume pd: "p_pc s = P_done"
      then have pi: "p_i s = count s" using ctr by (simp add: inv_ctr_def)
      from C assms(2) pd have cb: "c_blocked s" by (auto simp: finished_def)
      then show False
      proof (cases "c_pc s = C_wait_full")
        case True
        then have "c_i s < count s" using ctr by (simp add: inv_ctr_def)
        moreover have "0 \<le> c_i s" using ctr by (simp add: inv_ctr_def)
        ultimately have lt: "nat (c_i s) < nat (p_i s)" using pi by linarith
        have "sem_full s + nat (c_i s) = nat (p_i s)" using f True pd by simp
        moreover have "sem_full s = 0" using cb True by (simp add: c_blocked_def)
        ultimately show False using lt by linarith
      next
        case False
        then show False using cb m pd by (auto simp: c_blocked_def)
      qed
    next
      assume pb: "p_blocked s"
      show False
      proof (cases "p_pc s = P_wait_empty")
        case True
        then have z: "sem_empty s = 0" using pb by (simp add: p_blocked_def)
        have big: "nat (p_i s) = RING_CAP + nat (c_i s) + c_posted (c_pc s)"
          using e True z by simp
        then have lt: "nat (c_i s) < nat (p_i s)" by (simp add: RING_CAP_def)
        from C show False
        proof
          assume "c_pc s = C_done"
          then have "c_i s = count s" using ctr by (simp add: inv_ctr_def)
          then have "nat (c_i s) = nat (count s)" by simp
          then show False using lt pn by linarith
        next
          assume cb: "c_blocked s"
          show False
          proof (cases "c_pc s = C_wait_full")
            case cw: True
            have "sem_full s + nat (c_i s) = nat (p_i s)" using f True cw by simp
            moreover have "sem_full s = 0" using cb cw by (simp add: c_blocked_def)
            ultimately show False using lt by linarith
          next
            case False
            then show False using cb m True by (auto simp: c_blocked_def)
          qed
        qed
      next
        case False
        then have pm: "p_pc s = P_wait_mutex" "\<not> g_unsafe s" "sem_mutex s = 0"
          using pb by (auto simp: p_blocked_def)
        then have l: "c_locked (c_pc s) = 1" using m by simp
        then have "c_pc s \<noteq> C_done" "\<not> c_blocked s"
          by (cases "c_pc s"; simp add: c_blocked_def)+
        then show False using C by simp
      qed
    qed
  qed
qed

lemma progress_bound:
  assumes "inv s"
  shows "progress s \<le> 20 * nat (count s) + 3"
proof -
  have ctr: "inv_ctr s" using assms by (simp add: inv_def)
  have p: "10 * nat (p_i s) + p_rank (p_pc s) \<le> 10 * nat (count s) + 1"
  proof (cases "p_pc s = P_loop \<or> p_pc s = P_done")
    case True
    have "nat (p_i s) \<le> nat (count s)" using inv_ctr_bounds [OF ctr] by linarith
    then show ?thesis using True by auto
  next
    case False
    then have "p_i s < count s" "0 \<le> p_i s" using ctr by (simp_all add: inv_ctr_def)
    then have "nat (p_i s) + 1 \<le> nat (count s)" by linarith
    moreover have "p_rank (p_pc s) \<le> 9" by (cases "p_pc s") simp_all
    ultimately show ?thesis by linarith
  qed
  have c: "10 * nat (c_i s) + c_rank (c_pc s) \<le> 10 * nat (count s) + 2"
  proof (cases "c_pc s = C_loop \<or> c_pc s = C_audit \<or> c_pc s = C_done")
    case True
    have "nat (c_i s) \<le> nat (count s)" using inv_ctr_bounds [OF ctr] by linarith
    then show ?thesis using True by auto
  next
    case False
    then have "c_i s < count s" "0 \<le> c_i s" using ctr by (simp_all add: inv_ctr_def)
    then have "nat (c_i s) + 1 \<le> nat (count s)" by linarith
    moreover have "c_rank (c_pc s) \<le> 9" by (cases "c_pc s") simp_all
    ultimately show ?thesis by linarith
  qed
  show ?thesis unfolding progress_def using p c by linarith
qed

lemma run_completes:
  assumes "inv s" "fault s = None"
  shows "\<exists>sched. (finished (exec sched s) \<and> fault (exec sched s) = None)
                 \<or> fault (exec sched s) = Some Signed_overflow"
  using assms
proof (induction "20 * nat (count s) + 3 - progress s" arbitrary: s rule: less_induct)
  case less
  show ?case
  proof (cases "finished s")
    case True
    then have "finished (exec [] s) \<and> fault (exec [] s) = None" using less.prems by simp
    then show ?thesis by blast
  next
    case False
    from no_deadlock [OF less.prems(1) False]
    obtain a where a: "a = Producer \<or> a = Consumer"
      and adv: "progress (step a s) = progress s + 1 \<or> fault (step a s) = Some Signed_overflow"
    proof
      assume "p_pc s \<noteq> P_done \<and> \<not> p_blocked s"
      then have "progress (step Producer s) = progress s + 1"
        using less.prems by (simp add: step_def producer_advances)
      then show ?thesis using that [of Producer] by simp
    next
      assume "c_pc s \<noteq> C_done \<and> \<not> c_blocked s"
      then have "progress (step Consumer s) = progress s + 1
                 \<or> fault (step Consumer s) = Some Signed_overflow"
        using less.prems consumer_advances [of s] by (simp add: step_def)
      then show ?thesis using that [of Consumer] by simp
    qed
    have i': "inv (step a s)" using less.prems(1) by (rule inv_step)
    show ?thesis
    proof (cases "fault (step a s) = None")
      case True
      then have p: "progress (step a s) = progress s + 1" using adv by auto
      have b: "progress (step a s) \<le> 20 * nat (count (step a s)) + 3"
        using i' by (rule progress_bound)
      have c: "count (step a s) = count s" by (simp add: step_config)
      have "20 * nat (count (step a s)) + 3 - progress (step a s)
              < 20 * nat (count s) + 3 - progress s"
        using p b c by linarith
      from less.hyps [OF this i' True]
      obtain sched where
        "(finished (exec sched (step a s)) \<and> fault (exec sched (step a s)) = None)
         \<or> fault (exec sched (step a s)) = Some Signed_overflow"
        by blast
      then have "(finished (exec (a # sched) s) \<and> fault (exec (a # sched) s) = None)
         \<or> fault (exec (a # sched) s) = Some Signed_overflow"
        by simp
      then show ?thesis by blast
    next
      case False
      then have "fault (step a s) = Some Signed_overflow"
        using i' by (auto simp: inv_def inv_fault_def)
      then have "fault (exec [a] s) = Some Signed_overflow" by simp
      then show ?thesis by blast
    qed
  qed
qed

lemma run_can_finish:
  assumes "0 < n" "n < INT_MAX"
  shows "\<exists>sched. finished (exec sched (init u n))
                 \<and> report (exec sched (init u n)) = Some (0, 0)
                 \<and> fault (exec sched (init u n)) = None"
proof -
  have i: "inv (init u n)" using assms by (intro inv_init) simp_all
  have f: "fault (init u n) = None" by (simp add: init_def)
  obtain sched where s:
    "(finished (exec sched (init u n)) \<and> fault (exec sched (init u n)) = None)
     \<or> fault (exec sched (init u n)) = Some Signed_overflow"
    using run_completes [OF i f] by blast
  have "inv (exec sched (init u n))" using i by (rule inv_exec)
  moreover have "count (exec sched (init u n)) = n" by (simp add: exec_config init_def)
  ultimately have "fault (exec sched (init u n)) \<noteq> Some Signed_overflow"
    using assms(2) by (auto simp: inv_def inv_fault_def)
  then have "finished (exec sched (init u n))" using s by auto
  then show ?thesis using safe_run_reports_clean [OF assms] by blast
qed

lemma run_overflows_at_INT_MAX:
  "\<exists>sched. fault (exec sched (init u INT_MAX)) = Some Signed_overflow"
proof -
  have p: "0 < INT_MAX" by (simp add: INT_MAX_def)
  have i: "inv (init u INT_MAX)" using p by (intro inv_init) simp_all
  have f: "fault (init u INT_MAX) = None" by (simp add: init_def)
  obtain sched where s:
    "(finished (exec sched (init u INT_MAX)) \<and> fault (exec sched (init u INT_MAX)) = None)
     \<or> fault (exec sched (init u INT_MAX)) = Some Signed_overflow"
    using run_completes [OF i f] by blast
  have "c_pc (exec sched (init u INT_MAX)) \<noteq> C_done"
    using i by (rule not_done_exec) (simp_all add: init_def)
  then have "\<not> finished (exec sched (init u INT_MAX))" by (simp add: finished_def)
  then show ?thesis using s by blast
qed

text \<open>
  Claim C1. In safe mode, for every \<open>n > 0\<close> and every interleaving, a run in which both
  processes complete reports \<open>missing = 0\<close> and \<open>duplicate = 0\<close>. Lemma
  \<open>safe_run_reports_clean\<close> proves this for every \<open>n\<close> below \<^verbatim>\<open>INT_MAX\<close> (in either
  mode, at the granularity of statements; in safe mode the critical sections exclude
  each other, by the third conjunct of \<open>inv_sem\<close>). At \<open>n = INT_MAX\<close> every record is
  still delivered once and in order, but the reporting loop increments \<open>id\<close> past
  \<^verbatim>\<open>INT_MAX\<close>: under no schedule does the consumer reach its report, and some schedule
  runs into the overflow. Lemma \<open>run_can_finish\<close> shows that below \<^verbatim>\<open>INT_MAX\<close> a run
  can always be completed, lemma \<open>no_deadlock\<close> that no reachable state blocks both
  processes.
\<close>

theorem no_report_at_INT_MAX:
  "c_pc (exec sched (init False INT_MAX)) \<noteq> C_done
   \<and> report (exec sched (init False INT_MAX)) = None
   \<and> \<not> finished (exec sched (init False INT_MAX))
   \<and> (fault (exec sched (init False INT_MAX)) = None
        \<or> fault (exec sched (init False INT_MAX)) = Some Signed_overflow
           \<and> c_pc (exec sched (init False INT_MAX)) = C_audit)
   \<and> (\<exists>sched'. fault (exec sched' (init False INT_MAX)) = Some Signed_overflow)"
proof -
  let ?s = "exec sched (init False INT_MAX)"
  have p: "0 < INT_MAX" by (simp add: INT_MAX_def)
  have i0: "inv (init False INT_MAX)" using p by (intro inv_init) simp_all
  have i: "inv ?s" using i0 by (rule inv_exec)
  have "c_pc ?s \<noteq> C_done"
    using i0 by (rule not_done_exec) (simp_all add: init_def)
  then show ?thesis
    using i run_overflows_at_INT_MAX [of False]
    by (auto simp: inv_def inv_seen_def inv_fault_def finished_def)
qed

section \<open>The send time\<close>

text \<open>
  Claim C3, as amended. The producer assigns \<^verbatim>\<open>msg.t_send_us\<close> inside the critical
  section: no statement other than the one at \<open>P_build\<close> changes \<^verbatim>\<open>msg\<close>, and when the
  producer stands there its \<^verbatim>\<open>sem_wait(sem_empty)\<close> has returned (it holds a slot) and,
  in safe mode, it holds the mutex. The value assigned is the reading of the clock at
  that moment, and it is the value the next statement writes into the slot at \<open>head\<close>.
\<close>

theorem send_time_stamped_after_waits:
  assumes "0 < n" "n \<le> INT_MAX" "s = exec sched (init u n)" "fault s = None"
  shows "(p_pc s \<noteq> P_build \<longrightarrow> p_msg (step Producer s) = p_msg s)
       \<and> p_msg (step Consumer s) = p_msg s \<and> p_msg (step (Clock t) s) = p_msg s
       \<and> (p_pc s = P_build \<longrightarrow>
             p_pc (step Producer s) = P_write
           \<and> t_send_us (p_msg (step Producer s)) = word_of_int (clock s)
           \<and> sem_empty s + sem_full s + c_holds s + 1 = RING_CAP
           \<and> (\<not> u \<longrightarrow> sem_mutex s = 0))
       \<and> (p_pc s = P_write \<longrightarrow>
             buf (ring (step Producer s)) ! unat (head (ring s)) = p_msg s)"
proof -
  have i: "inv s" unfolding assms(3) using assms(1,2) by (rule inv_run)
  have u: "g_unsafe s = u" unfolding assms(3) by (simp add: exec_config init_def)
  have a: "p_msg (producer_step s) = p_msg s" if "p_pc s \<noteq> P_build"
    using that by (cases "p_pc s") (auto simp: producer_step_def split: sum.splits)
  have b: "p_pc (producer_step s) = P_write
           \<and> t_send_us (p_msg (producer_step s)) = word_of_int (clock s)
           \<and> sem_empty s + sem_full s + c_holds s + 1 = RING_CAP
           \<and> (\<not> u \<longrightarrow> sem_mutex s = 0)" if pb: "p_pc s = P_build"
  proof -
    obtain m where m: "t_send_us m = word_of_int (clock s)"
      "producer_step s = s\<lparr>p_msg := m, p_pc := P_write\<rparr>"
      using producer_build [of s] i pb by (auto simp: inv_def)
    have "p_holds s = 1" using pb by (simp add: p_holds_def)
    then have e: "sem_empty s + sem_full s + c_holds s + 1 = RING_CAP"
      using inv_sem_sum [of s] i by (simp add: inv_def)
    have "\<not> g_unsafe s \<longrightarrow> sem_mutex s + p_locked (p_pc s) + c_locked (c_pc s) = 1"
      using i by (simp add: inv_def inv_sem_def)
    then have x: "\<not> u \<longrightarrow> sem_mutex s = 0" using pb u by simp
    show ?thesis using m e x by simp
  qed
  have c: "buf (ring (producer_step s)) ! unat (head (ring s)) = p_msg s" if "p_pc s = P_write"
  proof -
    have "unat (head (ring s)) < length (buf (ring s))"
      using i by (simp add: inv_def inv_ring_def RING_CAP_def)
    then show ?thesis using that i by (simp add: inv_def producer_write)
  qed
  show ?thesis
    using a b c assms(4) by (simp add: step_def consumer_step_frame)
qed

text \<open>The amended C3 for \<open>n = 1\<close>, with the clock at 0 when \<^verbatim>\<open>t0\<close> is read, at 1 when
  the wait on \<^verbatim>\<open>sem_empty\<close> returns and at 2 when the record is stamped: the send time
  is 2.\<close>

theorem send_time_stamped_after_waits_witness:
  "p_pc (exec [Producer, Producer, Clock 1, Producer, Producer, Clock 2] (init False 1)) = P_build
   \<and> t_send_us (p_msg (step Producer
        (exec [Producer, Producer, Clock 1, Producer, Producer, Clock 2] (init False 1)))) = 2
   \<and> p_t0 (exec [Producer, Producer, Clock 1, Producer, Producer, Clock 2] (init False 1)) = 0"
proof -
  let ?s = "exec [Producer, Producer, Clock 1, Producer, Producer, Clock 2] (init False 1)"
  have h: "(0::int) < 1" "(1::int) \<le> INT_MAX" by (simp_all add: INT_MAX_def)
  have f: "fault ?s = None" by code_simp
  have p: "p_pc ?s = P_build" by code_simp
  have k: "clock ?s = 2" by code_simp
  have t: "p_t0 ?s = 0" by code_simp
  from send_time_stamped_after_waits [OF h refl f] p
  have "t_send_us (p_msg (step Producer ?s)) = word_of_int (clock ?s)" by blast
  then show ?thesis using p k t by simp
qed

text \<open>
  Claim C3 as stated fails in the run of the witness: when the producer is about to
  wait on \<^verbatim>\<open>sem_empty\<close> (clock 0) and when that wait has returned (clock 1),
  \<^verbatim>\<open>msg.t_send_us\<close> has not been assigned; the record it then enqueues in slot 0 carries
  the send time 2, read after both waits.
\<close>

theorem send_time_counterexample:
  "p_pc (exec [Producer, Producer] (init False 1)) = P_wait_empty
   \<and> clock (exec [Producer, Producer] (init False 1)) = 0
   \<and> t_send_us (p_msg (exec [Producer, Producer] (init False 1))) = 0
   \<and> p_pc (exec [Producer, Producer, Clock 1, Producer] (init False 1)) = P_wait_mutex
   \<and> sem_empty (exec [Producer, Producer, Clock 1, Producer] (init False 1)) = 1023
   \<and> clock (exec [Producer, Producer, Clock 1, Producer] (init False 1)) = 1
   \<and> t_send_us (p_msg (exec [Producer, Producer, Clock 1, Producer] (init False 1))) = 0
   \<and> p_pc (exec [Producer, Producer, Clock 1, Producer, Producer, Clock 2, Producer, Producer]
        (init False 1)) = P_head
   \<and> t_send_us (buf (ring (exec [Producer, Producer, Clock 1, Producer, Producer, Clock 2,
        Producer, Producer] (init False 1))) ! 0) = 2"
  by code_simp

end
